theory Spec2Isabelle
  imports Main
begin

unbundle bit_operations_syntax

section \<open>Truth-table generator: the compiler to postfix form and the evaluator\<close>

text \<open>
  A shallow embedding of \<^verbatim>\<open>generateRPN\<close> and \<^verbatim>\<open>generateTruthTable\<close> of
  \<^verbatim>\<open>src/main.ts\<close> (the file \<^verbatim>\<open>src/unnamed/part_000\<close> holds the same two functions,
  character for character).

  Conventions of the embedding:
  \<^item> a JavaScript string is a \<^typ>\<open>string\<close>; one \<^typ>\<open>char\<close> stands for one UTF-16 code
    unit below 256, which covers every character the operator table and the examples use;
  \<^item> a token of the scan is the one-character string \<^verbatim>\<open>charAt(i)\<close>, so tokens, operators
    and variable identifiers are all strings, as in the source;
  \<^item> an object used as a dictionary is an association list in insertion order; the keys
    that occur (single characters, \<^verbatim>\<open>var\<close> followed by a number) are never names of
    properties inherited from \<^verbatim>\<open>Object.prototype\<close>, so \<^verbatim>\<open>key in obj\<close> is a lookup;
  \<^item> an array used as a stack (\<^verbatim>\<open>push\<close>, \<^verbatim>\<open>pop\<close>, \<^verbatim>\<open>last\<close>) is a list whose head is the
    top of the stack;
  \<^item> \<^verbatim>\<open>undefined\<close> is \<^const>\<open>None\<close>; reading a property of \<^verbatim>\<open>undefined\<close> raises
    \<^verbatim>\<open>TypeError\<close>, the only exception the two functions can raise.
\<close>

subsection \<open>Data\<close>

datatype js_error = TypeError

record RPN =
  data :: "string list"
  codeVars :: "string list"
  mathToCodeVars :: "(string \<times> string) list"
  codeToMathVars :: "(string \<times> string) list"
  variableCount :: nat

text \<open>The operator table: symbol, priority, display glyph (the glyphs start with a backslash).\<close>

definition operators :: "(string \<times> (nat \<times> string)) list" where
  "operators =
    [(''~'', (5, CHR 0x5C # ''neg{}'')),
     (''&'', (4, CHR 0x5C # ''land{}'')),
     (''|'', (3, CHR 0x5C # ''lor{}'')),
     (''^'', (3, CHR 0x5C # ''oplus{}'')),
     (''>'', (2, CHR 0x5C # ''implies{}'')),
     (''<'', (1, CHR 0x5C # ''iff{}''))]"

text \<open>\<^verbatim>\<open>token in operators\<close>.\<close>

definition in_operators :: "string \<Rightarrow> bool" where
  "in_operators token = (map_of operators token \<noteq> None)"

text \<open>\<^verbatim>\<open>operators[token].priority\<close>; \<^const>\<open>None\<close> where \<^verbatim>\<open>operators[token]\<close> is undefined
  and the property read raises.\<close>

definition priority :: "string \<Rightarrow> nat option" where
  "priority token = map_option fst (map_of operators token)"

subsection \<open>JavaScript helpers\<close>

text \<open>\<^verbatim>\<open>String.prototype.trim\<close>: the white space and line terminators below code unit 256.\<close>

definition is_whitespace :: "char \<Rightarrow> bool" where
  "is_whitespace c = ((of_char c :: nat) \<in> {9, 10, 11, 12, 13, 32, 160})"

definition trim :: "string \<Rightarrow> string" where
  "trim s = rev (dropWhile is_whitespace (rev (dropWhile is_whitespace s)))"

text \<open>The decimal rendering of a counter, as \<^verbatim>\<open>"var" + n\<close> produces it.\<close>

definition digit_char :: "nat \<Rightarrow> char" where
  "digit_char d = char_of (48 + d)"

function number_to_string :: "nat \<Rightarrow> string" where
  "number_to_string n =
     (if n < 10 then [digit_char n]
      else number_to_string (n div 10) @ [digit_char (n mod 10)])"
  by pat_completeness auto
termination
  by (relation "measure (\<lambda>n. n)") auto

declare number_to_string.simps [simp del]

text \<open>\<^verbatim>\<open>obj[key] = v\<close>: an existing key keeps its place, a new key goes last.\<close>

fun object_set :: "(string \<times> 'v) list \<Rightarrow> string \<Rightarrow> 'v \<Rightarrow> (string \<times> 'v) list" where
  "object_set [] key v = [(key, v)]"
| "object_set ((k, w) # rest) key v =
     (if k = key then (k, v) # rest else (k, w) # object_set rest key v)"

text \<open>\<^verbatim>\<open>Array.prototype.pop\<close> on a stack whose elements may be undefined: the popped value
  (undefined on an empty stack) and the remaining stack.\<close>

fun js_pop :: "'a option list \<Rightarrow> 'a option \<times> 'a option list" where
  "js_pop [] = (None, [])"
| "js_pop (x # below) = (x, below)"

text \<open>String concatenation turns \<^verbatim>\<open>undefined\<close> into the text \<^verbatim>\<open>undefined\<close>;
  \<^verbatim>\<open>Array.prototype.join\<close> turns it into the empty string.\<close>

definition js_str :: "string option \<Rightarrow> string" where
  "js_str x = (case x of None \<Rightarrow> ''undefined'' | Some s \<Rightarrow> s)"

fun join_comma :: "string option list \<Rightarrow> string" where
  "join_comma [] = []"
| "join_comma [x] = (case x of None \<Rightarrow> [] | Some s \<Rightarrow> s)"
| "join_comma (x # y # rest) = (case x of None \<Rightarrow> [] | Some s \<Rightarrow> s) @ '','' @ join_comma (y # rest)"

text \<open>\<^verbatim>\<open>Array.prototype.indexOf\<close>, with \<^const>\<open>None\<close> for \<^verbatim>\<open>-1\<close>; \<^verbatim>\<open>includes\<close> holds exactly
  when it is not \<^const>\<open>None\<close>.\<close>

fun indexOf :: "string list \<Rightarrow> string \<Rightarrow> nat option" where
  "indexOf [] v = None"
| "indexOf (x # xs) v = (if x = v then Some 0 else map_option Suc (indexOf xs v))"

text \<open>\<^verbatim>\<open>Object.keys\<close> of a dictionary whose keys are single characters: the keys that are
  array indices (the digits) first, in ascending order, then the others in insertion order.\<close>

definition is_index_key :: "string \<Rightarrow> bool" where
  "is_index_key k = (case k of [c] \<Rightarrow> 48 \<le> (of_char c :: nat) \<and> (of_char c :: nat) \<le> 57 | _ \<Rightarrow> False)"

definition object_keys :: "(string \<times> 'v) list \<Rightarrow> string list" where
  "object_keys obj =
     sort_key (\<lambda>k. (of_char (hd k) :: nat)) (filter is_index_key (map fst obj))
     @ filter (\<lambda>k. \<not> is_index_key k) (map fst obj)"

subsection \<open>The compiler: \<^verbatim>\<open>generateRPN\<close>\<close>

text \<open>The state of the scan: the result under construction, the pending operators of each
  nesting level (an array indexed by the level, which an unmatched \<^verbatim>\<open>)\<close> makes negative;
  a level never written reads as undefined) and the current level.\<close>

record compile_state =
  rpn :: RPN
  pendingOperations :: "int \<Rightarrow> string list option"
  parenLevel :: int

definition initial_state :: compile_state where
  "initial_state =
     \<lparr>rpn = \<lparr>data = [], codeVars = [], mathToCodeVars = [], codeToMathVars = [], variableCount = 0\<rparr>,
      pendingOperations = (\<lambda>level. if level = 0 then Some [] else None),
      parenLevel = 0\<rparr>"

text \<open>\<^verbatim>\<open>while (stack.length > 0) rpn.data.push(stack.pop())\<close>: the output and the emptied stack.\<close>

fun drain :: "string list \<Rightarrow> string list \<Rightarrow> string list \<times> string list" where
  "drain out [] = (out, [])"
| "drain out (op # below) = drain (out @ [op]) below"

text \<open>The loop of the operator branch: pop and emit while the top's priority is strictly
  greater than the token's.\<close>

fun pop_greater :: "string \<Rightarrow> string list \<Rightarrow> string list \<Rightarrow> js_error + (string list \<times> string list)" where
  "pop_greater token out [] = Inr (out, [])"
| "pop_greater token out (op # below) =
     (case (priority op, priority token) of
        (Some p_op, Some p_token) \<Rightarrow>
          if p_op > p_token then pop_greater token (out @ [op]) below
          else Inr (out, op # below)
      | _ \<Rightarrow> Inl TypeError)"

text \<open>The variable branch.\<close>

definition handle_variable :: "RPN \<Rightarrow> string \<Rightarrow> RPN" where
  "handle_variable r token =
     (case map_of (mathToCodeVars r) token of
        Some known \<Rightarrow> r\<lparr>data := data r @ [known]\<rparr>
      | None \<Rightarrow>
          (let count = variableCount r + 1;
               codeVar = ''var'' @ number_to_string count
           in r\<lparr>variableCount := count,
                codeVars := codeVars r @ [codeVar],
                mathToCodeVars := object_set (mathToCodeVars r) token codeVar,
                codeToMathVars := object_set (codeToMathVars r) codeVar token,
                data := data r @ [codeVar]\<rparr>))"

text \<open>One iteration of the \<^verbatim>\<open>for\<close> loop over the characters.\<close>

definition step :: "compile_state \<Rightarrow> string \<Rightarrow> js_error + compile_state" where
  "step st token =
     (let pendingOperationsAtLevel = pendingOperations st (parenLevel st) in
      if token = ''('' then Inr (st\<lparr>parenLevel := parenLevel st + 1\<rparr>)
      else if token = '')'' then
        (case pendingOperationsAtLevel of
           None \<Rightarrow> Inl TypeError
         | Some stack \<Rightarrow>
             (let (out, emptied) = drain (data (rpn st)) stack
              in Inr (st\<lparr>rpn := (rpn st)\<lparr>data := out\<rparr>,
                         pendingOperations := (pendingOperations st)(parenLevel st \<mapsto> emptied),
                         parenLevel := parenLevel st - 1\<rparr>)))
      else if in_operators token then
        (case pendingOperationsAtLevel of
           None \<Rightarrow> Inr (st\<lparr>pendingOperations := (pendingOperations st)(parenLevel st \<mapsto> [token])\<rparr>)
         | Some [] \<Rightarrow> Inr (st\<lparr>pendingOperations := (pendingOperations st)(parenLevel st \<mapsto> [token])\<rparr>)
         | Some (op # below) \<Rightarrow>
             (case pop_greater token (data (rpn st)) (op # below) of
                Inl e \<Rightarrow> Inl e
              | Inr (out, remaining) \<Rightarrow>
                  Inr (st\<lparr>rpn := (rpn st)\<lparr>data := out\<rparr>,
                         pendingOperations := (pendingOperations st)(parenLevel st \<mapsto> token # remaining)\<rparr>)))
      else Inr (st\<lparr>rpn := handle_variable (rpn st) token\<rparr>))"

fun scan :: "compile_state \<Rightarrow> string \<Rightarrow> js_error + compile_state" where
  "scan st [] = Inr st"
| "scan st (c # rest) = (case step st [c] of Inl e \<Rightarrow> Inl e | Inr st' \<Rightarrow> scan st' rest)"

definition generateRPN :: "string \<Rightarrow> js_error + RPN" where
  "generateRPN proposition =
     (let filteredProp = trim proposition in
      case scan initial_state filteredProp of
        Inl e \<Rightarrow> Inl e
      | Inr st \<Rightarrow>
          (case pendingOperations st (parenLevel st) of
             None \<Rightarrow> Inl TypeError
           | Some stack \<Rightarrow> Inr ((rpn st)\<lparr>data := fst (drain (data (rpn st)) stack)\<rparr>)))"

subsection \<open>The evaluator and renderer: \<^verbatim>\<open>generateTruthTable\<close>\<close>

definition intToChar :: "int \<Rightarrow> string option" where
  "intToChar n = (if n = 0 then Some ''F'' else if n = 1 then Some ''T'' else None)"

text \<open>Symbolic replay: the loop over \<^verbatim>\<open>rpn.data\<close> that builds the header. The accumulator is
  the list of operation labels appended to the header so far and the simulated operating
  stack; popping an empty stack yields undefined, which concatenation prints.\<close>

definition overline :: "string option \<Rightarrow> string" where
  "overline x = CHR 0x5C # ''overline{'' @ js_str x @ ''}''"

fun simulate :: "RPN \<Rightarrow> string list \<Rightarrow> string list \<times> string option list \<Rightarrow> string list \<times> string option list" where
  "simulate r [] acc = acc"
| "simulate r (token # rest) (labels, simulatedOperatingStack) =
     (case map_of operators token of
        Some (p, latex) \<Rightarrow>
          (if token = ''~'' then
             (let (x, s1) = js_pop simulatedOperatingStack;
                  operation = overline x
              in simulate r rest (labels @ [operation], Some operation # s1))
           else
             (let (rhs, s1) = js_pop simulatedOperatingStack;
                  (lhs, s2) = js_pop s1;
                  operation = js_str lhs @ latex @ js_str rhs
              in simulate r rest (labels @ [operation], Some operation # s2)))
      | None \<Rightarrow>
          simulate r rest (labels, map_of (codeToMathVars r) token # simulatedOperatingStack))"

text \<open>\<^verbatim>\<open>convertedRPNData\<close>: a token that is one of \<^verbatim>\<open>codeVars\<close> becomes its index there (a
  number), any other token stays a string.\<close>

datatype converted = Num nat | Str string

definition convert :: "RPN \<Rightarrow> converted list" where
  "convert r =
     map (\<lambda>v. case indexOf (codeVars r) v of Some i \<Rightarrow> Num i | None \<Rightarrow> Str v) (data r)"

text \<open>The arithmetic of the numeric replay on operands that may be undefined:
  \<^verbatim>\<open>Number(!x)\<close>, the bitwise operators (which first apply \<^verbatim>\<open>ToInt32\<close>), the truth test of
  \<^verbatim>\<open>&&\<close> and \<^verbatim>\<open>!\<close>, and \<^verbatim>\<open>===\<close>.\<close>

definition truthy :: "int option \<Rightarrow> bool" where
  "truthy x = (case x of None \<Rightarrow> False | Some n \<Rightarrow> n \<noteq> 0)"

definition js_not :: "int option \<Rightarrow> int" where
  "js_not x = (if truthy x then 0 else 1)"

definition to_int32 :: "int option \<Rightarrow> int" where
  "to_int32 x = (case x of None \<Rightarrow> 0 | Some n \<Rightarrow> signed_take_bit 31 n)"

text \<open>The \<^verbatim>\<open>switch\<close> of the numeric replay: the computed value and the stack after the pops.
  For a binary operator the first pop is \<^verbatim>\<open>rhs\<close>, the second the left operand. A string
  that matches no \<^verbatim>\<open>case\<close> leaves \<^verbatim>\<open>value\<close> at 0 and pops nothing.\<close>

definition apply_operator :: "string \<Rightarrow> int option list \<Rightarrow> int \<times> int option list" where
  "apply_operator token operatingStack =
     (if token = ''~'' then
        (let (x, s1) = js_pop operatingStack in (js_not x, s1))
      else if token = ''&'' then
        (let (rhs, s1) = js_pop operatingStack; (lhs, s2) = js_pop s1
         in (to_int32 lhs AND to_int32 rhs, s2))
      else if token = ''|'' then
        (let (rhs, s1) = js_pop operatingStack; (lhs, s2) = js_pop s1
         in (to_int32 lhs OR to_int32 rhs, s2))
      else if token = ''^'' then
        (let (rhs, s1) = js_pop operatingStack; (lhs, s2) = js_pop s1
         in (to_int32 lhs XOR to_int32 rhs, s2))
      else if token = ''>'' then
        (let (rhs, s1) = js_pop operatingStack; (lhs, s2) = js_pop s1
         in (if truthy lhs \<and> \<not> truthy rhs then 0 else 1, s2))
      else if token = ''<'' then
        (let (rhs, s1) = js_pop operatingStack; (lhs, s2) = js_pop s1
         in (if lhs = rhs then 1 else 0, s2))
      else (0, operatingStack))"

text \<open>\<^verbatim>\<open>values[token]\<close>, undefined out of range.\<close>

definition js_nth :: "'a list \<Rightarrow> nat \<Rightarrow> 'a option" where
  "js_nth xs i = (if i < length xs then Some (xs ! i) else None)"

text \<open>Numeric replay of one row: the loop over \<^verbatim>\<open>convertedRPNData\<close>. The accumulator is the
  list of values appended to the row so far and the operating stack.\<close>

fun evaluate :: "int list \<Rightarrow> converted list \<Rightarrow> int list \<times> int option list \<Rightarrow> int list \<times> int option list" where
  "evaluate vals [] acc = acc"
| "evaluate vals (Num i # rest) (cells, operatingStack) =
     evaluate vals rest (cells, js_nth vals i # operatingStack)"
| "evaluate vals (Str token # rest) (cells, operatingStack) =
     (let (v, s) = apply_operator token operatingStack
      in evaluate vals rest (cells @ [v], Some v # s))"

text \<open>The inner \<^verbatim>\<open>for\<close> loop of a run: \<^verbatim>\<open>values[i]\<close> is toggled when the run number is
  divisible by \<^verbatim>\<open>2 ** (variableCount - i - 1)\<close>. The array has \<^verbatim>\<open>variableCount\<close> elements,
  so every index read is in range. Run numbers and powers of two are natural numbers here;
  the doubles of the source are exact on them for every variable count whose table can be
  built at all.\<close>

function toggle :: "nat \<Rightarrow> nat \<Rightarrow> nat \<Rightarrow> int list \<Rightarrow> int list" where
  "toggle n runNumber i vals =
     (if i < n then
        toggle n runNumber (i + 1)
          (if runNumber mod 2 ^ (n - i - 1) = 0 then vals[i := js_not (js_nth vals i)] else vals)
      else vals)"
  by pat_completeness auto
termination
  by (relation "measure (\<lambda>(n, runNumber, i, vals). n - i)") auto

declare toggle.simps [simp del]

text \<open>The outer loop over the run numbers: each run yields the values of the variables and the
  computed cells; the values array is carried from one run to the next.\<close>

function runs :: "nat \<Rightarrow> converted list \<Rightarrow> nat \<Rightarrow> int list \<Rightarrow> (int list \<times> int list) list" where
  "runs n program runNumber vals =
     (if runNumber < 2 ^ n then
        (let vals' = toggle n runNumber 0 vals;
             cells = fst (evaluate vals' program ([], []))
         in (vals', cells) # runs n program (runNumber + 1) vals')
      else [])"
  by pat_completeness auto
termination
  by (relation "measure (\<lambda>(n, program, runNumber, vals). 2 ^ n - runNumber)") auto

declare runs.simps [simp del]

definition table_rows :: "RPN \<Rightarrow> (int list \<times> int list) list" where
  "table_rows r = runs (variableCount r) (convert r) 0 (replicate (variableCount r) 0)"

definition header_labels :: "RPN \<Rightarrow> string list" where
  "header_labels r = fst (simulate r (data r) ([], []))"

definition render_row :: "int list \<times> int list \<Rightarrow> string" where
  "render_row row =
     ''|'' @ join_comma (map intToChar (fst row)) @ ''|''
     @ concat (map (\<lambda>v. js_str (intToChar v) @ ''|'') (snd row))"

definition generateTruthTable :: "RPN \<Rightarrow> string" where
  "generateTruthTable r =
     ''| '' @ join_comma (map Some (object_keys (mathToCodeVars r))) @ '' |''
     @ concat (map (\<lambda>operation. '' $'' @ operation @ ''$ |'') (header_labels r))
     @ [CHR 0x0A] @ ''|-|'' @ concat (map (\<lambda>operation. ''-|'') (header_labels r))
     @ concat (map (\<lambda>row. CHR 0x0A # render_row row) (table_rows r))"

subsection \<open>Notions used to state the properties\<close>

text \<open>The compilation result of the worked example of the design notes,
  \<^verbatim>\<open>p&q|~(r>s)<t|(~q^~s)\<close>.\<close>

definition worked_example :: RPN where
  "worked_example =
     \<lparr>data = [''var1'', ''var2'', ''&'', ''var3'', ''var4'', ''>'', ''~'', ''|'',
              ''var5'', ''var2'', ''~'', ''var4'', ''~'', ''^'', ''|'', ''<''],
      codeVars = [''var1'', ''var2'', ''var3'', ''var4'', ''var5''],
      mathToCodeVars =
        [(''p'', ''var1''), (''q'', ''var2''), (''r'', ''var3''), (''s'', ''var4''), (''t'', ''var5'')],
      codeToMathVars =
        [(''var1'', ''p''), (''var2'', ''q''), (''var3'', ''r''), (''var4'', ''s''), (''var5'', ''t'')],
      variableCount = 5\<rparr>"

text \<open>A postfix program with every variable identifier replaced by its display symbol.\<close>

definition display :: "RPN \<Rightarrow> string list" where
  "display r =
     map (\<lambda>token. case map_of (codeToMathVars r) token of Some symbol \<Rightarrow> symbol | None \<Rightarrow> token)
       (data r)"

text \<open>The comparison of the specification's operator rule: the stacked operator \<open>op\<close> has a
  priority strictly greater than the scanned token's.\<close>

definition binds_tighter :: "string \<Rightarrow> string \<Rightarrow> bool" where
  "binds_tighter token op =
     (case (priority op, priority token) of
        (Some p_op, Some p_token) \<Rightarrow> p_op > p_token
      | _ \<Rightarrow> False)"

text \<open>A scan state whose level-0 stack holds the given operators (top first).\<close>

definition with_stack :: "string list \<Rightarrow> compile_state" where
  "with_stack stack =
     initial_state\<lparr>pendingOperations := (pendingOperations initial_state)(0 \<mapsto> stack)\<rparr>"

text \<open>The assignment the specification gives run number \<open>runNumber\<close> of a table over \<open>n\<close>
  variables: position \<open>i\<close> holds the complement of bit \<open>n - i - 1\<close> of the run number.\<close>

definition assignment :: "nat \<Rightarrow> nat \<Rightarrow> int list" where
  "assignment n runNumber = map (\<lambda>i. if bit runNumber (n - i - 1) then 0 else 1) [0..<n]"

text \<open>The compilation result of \<^verbatim>\<open>p&q\<close>.\<close>

definition p_and_q :: RPN where
  "p_and_q =
     \<lparr>data = [''var1'', ''var2'', ''&''], codeVars = [''var1'', ''var2''],
      mathToCodeVars = [(''p'', ''var1''), (''q'', ''var2'')],
      codeToMathVars = [(''var1'', ''p''), (''var2'', ''q'')],
      variableCount = 2\<rparr>"

text \<open>The element of \<^verbatim>\<open>convertedRPNData\<close> for one token.\<close>

definition converted_token :: "RPN \<Rightarrow> string \<Rightarrow> converted" where
  "converted_token r v = (case indexOf (codeVars r) v of Some i \<Rightarrow> Num i | None \<Rightarrow> Str v)"

text \<open>The cells and the operating stack hold only 0 and 1.\<close>

definition zero_one :: "int list \<times> int option list \<Rightarrow> bool" where
  "zero_one acc = (set (fst acc) \<subseteq> {0, 1} \<and> set (snd acc) \<subseteq> {Some 0, Some 1})"

text \<open>The internal identifier \<^verbatim>\<open>"var" + k\<close> of the k-th distinct variable.\<close>

definition codeVar :: "nat \<Rightarrow> string" where
  "codeVar k = ''var'' @ number_to_string k"

text \<open>Reading a decimal numeral back, used to show that \<^const>\<open>number_to_string\<close> is
  injective.\<close>

definition string_to_number :: "string \<Rightarrow> nat" where
  "string_to_number s = foldl (\<lambda>a c. 10 * a + (of_char c - 48)) 0 s"

text \<open>The tokens of an input, and those the scan treats as variables: every token that is
  neither a parenthesis nor an operator.\<close>

definition tokens :: "string \<Rightarrow> string list" where
  "tokens s = map (\<lambda>c. [c]) s"

definition is_variable :: "string \<Rightarrow> bool" where
  "is_variable token = (token \<noteq> ''('' \<and> token \<noteq> '')'' \<and> \<not> in_operators token)"

text \<open>The distinct elements of a list in the order of their first occurrences, and the
  distinct variables of an input in that order.\<close>

definition first_occurrences :: "'a list \<Rightarrow> 'a list" where
  "first_occurrences xs = rev (remdups (rev xs))"

definition variables :: "string \<Rightarrow> string list" where
  "variables s = first_occurrences (filter is_variable (tokens s))"

text \<open>The variable tables of a result whose distinct variables are \<open>vars\<close>: the k-th
  variable (counting from 1) has the identifier \<^verbatim>\<open>var\<close>k, and the two dictionaries pair the
  variables with their identifiers in that order.\<close>

definition tables_of :: "string list \<Rightarrow> RPN \<Rightarrow> bool" where
  "tables_of vars r =
     (variableCount r = length vars
      \<and> codeVars r = map (\<lambda>k. codeVar (Suc k)) [0..<length vars]
      \<and> mathToCodeVars r = zip vars (codeVars r)
      \<and> codeToMathVars r = zip (codeVars r) vars)"

text \<open>Invariants of the scan after the prefix \<open>pre\<close> of the input: the tables are those of
  the variables of the prefix; the pending stacks hold operators only; the operands of the
  output are, in order, the identifiers of the variable occurrences of the prefix; every
  token of the output is an operator or an identifier.\<close>

definition stacks_hold_operators :: "compile_state \<Rightarrow> bool" where
  "stacks_hold_operators st =
     (\<forall>level stack. pendingOperations st level = Some stack \<longrightarrow> (\<forall>op\<in>set stack. in_operators op))"

definition scan_invariant :: "string \<Rightarrow> compile_state \<Rightarrow> bool" where
  "scan_invariant pre st =
     (tables_of (variables pre) (rpn st)
      \<and> stacks_hold_operators st
      \<and> map (map_of (mathToCodeVars (rpn st))) (filter is_variable (tokens pre))
          = map Some (filter (\<lambda>t. \<not> in_operators t) (data (rpn st)))
      \<and> set (data (rpn st)) \<subseteq> {t. in_operators t} \<union> set (codeVars (rpn st)))"

text \<open>The compilation result of \<^verbatim>\<open>q&p|q\<close>.\<close>

definition q_and_p_or_q :: RPN where
  "q_and_p_or_q =
     \<lparr>data = [''var1'', ''var2'', ''&'', ''var1'', ''|''], codeVars = [''var1'', ''var2''],
      mathToCodeVars = [(''q'', ''var1''), (''p'', ''var2'')],
      codeToMathVars = [(''var1'', ''q''), (''var2'', ''p'')],
      variableCount = 2\<rparr>"

text \<open>Well-formed input, read token by token: the state is whether an operand is expected
  next and the number of parentheses still open. An operand may start with \<^verbatim>\<open>(\<close> or \<^verbatim>\<open>~\<close> or
  be a variable; after an operand comes a matching \<^verbatim>\<open>)\<close> or a binary operator, which
  expects its right operand. The input is well-formed when it ends after an operand with
  no parenthesis open; the empty text and two operands in a row, as in \<^verbatim>\<open>pq\<close>, are not. A
  variable is any character the scan treats as one, white space inside the input
  included.\<close>

fun syntax_step :: "bool \<times> nat \<Rightarrow> char \<Rightarrow> (bool \<times> nat) option" where
  "syntax_step (operand_expected, open_parens) c =
     (if operand_expected then
        (if c = CHR ''('' then Some (True, Suc open_parens)
         else if c = CHR ''~'' then Some (True, open_parens)
         else if is_variable [c] then Some (False, open_parens)
         else None)
      else
        (if c = CHR '')'' then (if 0 < open_parens then Some (False, open_parens - 1) else None)
         else if in_operators [c] \<and> c \<noteq> CHR ''~'' then Some (True, open_parens)
         else None))"

definition syntax_run :: "(bool \<times> nat) option \<Rightarrow> string \<Rightarrow> (bool \<times> nat) option" where
  "syntax_run state s =
     foldl (\<lambda>state c. case state of None \<Rightarrow> None | Some x \<Rightarrow> syntax_step x c) state s"

definition wellformed :: "string \<Rightarrow> bool" where
  "wellformed s = (syntax_run (Some (True, 0)) s = Some (False, 0))"

text \<open>The grammar of propositions: a variable, a negation, two propositions joined by a
  binary operator, a proposition in parentheses. Every such text is well-formed in the
  sense above (lemma \<open>formula_wellformed\<close>).\<close>

inductive formula :: "string \<Rightarrow> bool" where
  variable: "is_variable [c] \<Longrightarrow> formula [c]"
| negation: "formula e \<Longrightarrow> formula (CHR ''~'' # e)"
| binary: "formula a \<Longrightarrow> formula b \<Longrightarrow> in_operators [c] \<Longrightarrow> c \<noteq> CHR ''~'' \<Longrightarrow>
     formula (a @ c # b)"
| group: "formula e \<Longrightarrow> formula (CHR ''('' # e @ '')'')"

text \<open>The stack discipline of a postfix program: the depth of the stack after the tokens,
  starting from a given depth; \<^const>\<open>None\<close> when an operator finds fewer operands than
  it pops (one for \<^verbatim>\<open>~\<close>, two for the others). A program is well-formed when it runs from
  the empty stack to a stack of exactly one value.\<close>

fun rpn_depth :: "string list \<Rightarrow> nat \<Rightarrow> nat option" where
  "rpn_depth [] depth = Some depth"
| "rpn_depth (token # rest) depth =
     (if token = ''~'' then (if 1 \<le> depth then rpn_depth rest depth else None)
      else if in_operators token then (if 2 \<le> depth then rpn_depth rest (depth - 1) else None)
      else rpn_depth rest (Suc depth))"

definition rpn_wellformed :: "string list \<Rightarrow> bool" where
  "rpn_wellformed program = (rpn_depth program 0 = Some 1)"

text \<open>The binary operators pending on a stack, and on the stacks of the levels 0 to \<open>level\<close>.\<close>

definition binary_count :: "string list \<Rightarrow> nat" where
  "binary_count ops = length (filter (\<lambda>op. op \<noteq> ''~'') ops)"

definition pending_count :: "string list option \<Rightarrow> nat" where
  "pending_count stack = (case stack of None \<Rightarrow> 0 | Some ops \<Rightarrow> binary_count ops)"

fun pending_binary :: "(int \<Rightarrow> string list option) \<Rightarrow> nat \<Rightarrow> nat" where
  "pending_binary po 0 = pending_count (po 0)"
| "pending_binary po (Suc level) = pending_count (po (int (Suc level))) + pending_binary po level"

text \<open>The invariant that links the scan to the syntax: the level is the number of open
  parentheses; the levels above hold no operator; and the output so far leaves as many
  values on the stack as binary operators are pending, plus one after a complete operand.\<close>

definition depth_invariant :: "bool \<Rightarrow> nat \<Rightarrow> compile_state \<Rightarrow> bool" where
  "depth_invariant operand_expected open_parens st =
     (parenLevel st = int open_parens
      \<and> (\<forall>level. int open_parens < level \<longrightarrow>
            pendingOperations st level = None \<or> pendingOperations st level = Some [])
      \<and> rpn_depth (data (rpn st)) 0 =
          Some (pending_binary (pendingOperations st) open_parens + (if operand_expected then 0 else 1)))"

definition compile_invariant :: "string \<Rightarrow> compile_state \<Rightarrow> bool" where
  "compile_invariant pre st =
     (scan_invariant pre st
      \<and> (\<forall>e d. syntax_run (Some (True, 0)) pre = Some (e, d) \<longrightarrow> depth_invariant e d st))"

text \<open>Whether compiling the text raises: a \<^verbatim>\<open>)\<close>, or the end of the text, is reached at a
  level that has no stack. The levels that have one are level 0 and every level at which
  an operator has been scanned.\<close>

fun stack_missing :: "int \<Rightarrow> int list \<Rightarrow> string \<Rightarrow> bool" where
  "stack_missing level created [] = (level \<notin> set created)"
| "stack_missing level created (c # rest) =
     (if c = CHR ''('' then stack_missing (level + 1) created rest
      else if c = CHR '')'' then level \<notin> set created \<or> stack_missing (level - 1) created rest
      else if in_operators [c] then stack_missing level (level # created) rest
      else stack_missing level created rest)"

text \<open>Scanning the text from a state and draining at the end raises.\<close>

definition raises :: "compile_state \<Rightarrow> string \<Rightarrow> bool" where
  "raises st s =
     (case scan st s of
        Inl e \<Rightarrow> True
      | Inr st' \<Rightarrow> pendingOperations st' (parenLevel st') = None)"


section \<open>Properties\<close>

subsection \<open>The operator table\<close>

lemma in_operators_iff:
  "in_operators t \<longleftrightarrow> t \<in> {''~'', ''&'', ''|'', ''^'', ''>'', ''<''}"
  by (auto simp: in_operators_def operators_def)

lemma in_operators_priority: "in_operators t \<Longrightarrow> \<exists>p. priority t = Some p"
  by (auto simp: in_operators_def priority_def)

lemma in_operators_not_paren: "in_operators t \<Longrightarrow> t \<noteq> ''('' \<and> t \<noteq> '')''"
  by (auto simp: in_operators_iff)

lemma priority_le_5: "priority t = Some p \<Longrightarrow> p \<le> 5"
  by (auto simp: priority_def operators_def split: if_splits)

subsection \<open>The worked example\<close>

text \<open>
  Claim C3. Compiling \<^verbatim>\<open>p&q|~(r>s)<t|(~q^~s)\<close> returns the result \<^const>\<open>worked_example\<close>: its
  variables are p, q, r, s, t in first-occurrence order and its postfix program reads
  p q & r s > ~ | t q ~ s ~ ^ | <. Numeric replay of that program under p=1, q=0, r=1, s=0,
  t=1 leaves exactly the value 1 (true) on the operating stack; this assignment is the row of
  run number 10 of the table.
\<close>

theorem worked_example_compiles_and_evaluates_to_true:
  "generateRPN ''p&q|~(r>s)<t|(~q^~s)'' = Inr worked_example
   \<and> display worked_example =
       [''p'', ''q'', ''&'', ''r'', ''s'', ''>'', ''~'', ''|'',
        ''t'', ''q'', ''~'', ''s'', ''~'', ''^'', ''|'', ''<'']
   \<and> object_keys (mathToCodeVars worked_example) = [''p'', ''q'', ''r'', ''s'', ''t'']
   \<and> evaluate [1, 0, 1, 0, 1] (convert worked_example) ([], [])
       = ([0, 0, 1, 1, 1, 1, 0, 1, 1], [Some 1])
   \<and> table_rows worked_example ! 10 = ([1, 0, 1, 0, 1], [0, 0, 1, 1, 1, 1, 0, 1, 1])"
proof (intro conjI)
  show "generateRPN ''p&q|~(r>s)<t|(~q^~s)'' = Inr worked_example"
    by code_simp
  show "display worked_example =
       [''p'', ''q'', ''&'', ''r'', ''s'', ''>'', ''~'', ''|'',
        ''t'', ''q'', ''~'', ''s'', ''~'', ''^'', ''|'', ''<'']"
    by code_simp
  show "object_keys (mathToCodeVars worked_example) = [''p'', ''q'', ''r'', ''s'', ''t'']"
    by code_simp
  show "evaluate [1, 0, 1, 0, 1] (convert worked_example) ([], [])
       = ([0, 0, 1, 1, 1, 1, 0, 1, 1], [Some 1])"
    by code_simp
  show "table_rows worked_example ! 10 = ([1, 0, 1, 0, 1], [0, 0, 1, 1, 1, 1, 0, 1, 1])"
    by code_simp
qed

subsection \<open>The operator branch of the scan\<close>

lemma pop_greater_takeWhile:
  "in_operators token \<Longrightarrow> \<forall>op\<in>set stack. in_operators op \<Longrightarrow>
   pop_greater token out stack =
     Inr (out @ takeWhile (binds_tighter token) stack, dropWhile (binds_tighter token) stack)"
proof (induction stack arbitrary: out)
  case Nil
  then show ?case by simp
next
  case (Cons op below)
  obtain p where p: "priority token = Some p"
    using Cons.prems(1) in_operators_priority by blast
  obtain q where q: "priority op = Some q"
    using Cons.prems(2) in_operators_priority by fastforce
  show ?case
    using Cons p q by (simp add: binds_tighter_def)
qed

lemma step_operator_on_empty:
  assumes "in_operators token"
    "pendingOperations st (parenLevel st) = None \<or> pendingOperations st (parenLevel st) = Some []"
  shows "step st token =
      Inr (st\<lparr>pendingOperations := (pendingOperations st)(parenLevel st \<mapsto> [token])\<rparr>)"
  using in_operators_not_paren[OF assms(1)] assms by (auto simp: step_def)

lemma step_operator_on_stack:
  assumes "in_operators token" "pendingOperations st (parenLevel st) = Some stack" "stack \<noteq> []"
    "\<forall>op\<in>set stack. in_operators op"
  shows "step st token =
      Inr (st\<lparr>rpn := (rpn st)\<lparr>data := data (rpn st) @ takeWhile (binds_tighter token) stack\<rparr>,
              pendingOperations :=
                (pendingOperations st)
                  (parenLevel st \<mapsto> token # dropWhile (binds_tighter token) stack)\<rparr>)"
proof -
  obtain op below where s: "stack = op # below"
    using assms(3) by (cases stack) auto
  have "pop_greater token (data (rpn st)) (op # below) =
          Inr (data (rpn st) @ takeWhile (binds_tighter token) (op # below),
               dropWhile (binds_tighter token) (op # below))"
    using pop_greater_takeWhile[OF assms(1), of "op # below"] assms(4) s by blast
  then show ?thesis
    using in_operators_not_paren[OF assms(1)] assms(1,2) s by (simp add: step_def)
qed

text \<open>
  Claim C4. When an operator token is scanned: if the stack of the current level is empty
  (or does not exist yet), the token becomes that level's stack. Otherwise, for a stack of
  operators, the longest run of operators from the top whose priority is strictly greater
  than the token's is popped and appended to the output in that order, and the token is
  pushed on what remains. In particular a top operator of equal priority is not popped:
  the output is unchanged and the token is pushed above it. For \<^verbatim>\<open>a&b&c\<close> both \<^verbatim>\<open>&\<close> stay
  stacked until the final drain, which gives the program a b c & &.
\<close>

theorem operator_pops_strictly_greater_priority:
  "in_operators token \<Longrightarrow>
   (pendingOperations st (parenLevel st) = None \<or> pendingOperations st (parenLevel st) = Some []
      \<longrightarrow> step st token =
            Inr (st\<lparr>pendingOperations := (pendingOperations st)(parenLevel st \<mapsto> [token])\<rparr>))
   \<and> (\<forall>stack. pendingOperations st (parenLevel st) = Some stack \<and> stack \<noteq> []
                \<and> (\<forall>op\<in>set stack. in_operators op)
      \<longrightarrow> step st token =
            Inr (st\<lparr>rpn := (rpn st)\<lparr>data := data (rpn st) @ takeWhile (binds_tighter token) stack\<rparr>,
                    pendingOperations :=
                      (pendingOperations st)
                        (parenLevel st \<mapsto> token # dropWhile (binds_tighter token) stack)\<rparr>))
   \<and> (\<forall>op below. pendingOperations st (parenLevel st) = Some (op # below) \<and> in_operators op
                \<and> priority op = priority token
      \<longrightarrow> step st token =
            Inr (st\<lparr>pendingOperations := (pendingOperations st)(parenLevel st \<mapsto> token # op # below)\<rparr>))
   \<and> map_sum id data (generateRPN ''a&b&c'') = Inr [''var1'', ''var2'', ''var3'', ''&'', ''&'']"
proof (intro conjI impI allI)
  assume tok: "in_operators token"
  assume "pendingOperations st (parenLevel st) = None \<or> pendingOperations st (parenLevel st) = Some []"
  then show "step st token =
      Inr (st\<lparr>pendingOperations := (pendingOperations st)(parenLevel st \<mapsto> [token])\<rparr>)"
    using tok by (rule step_operator_on_empty[rotated])
next
  fix stack
  assume tok: "in_operators token"
  assume h: "pendingOperations st (parenLevel st) = Some stack \<and> stack \<noteq> []
               \<and> (\<forall>op\<in>set stack. in_operators op)"
  show "step st token =
      Inr (st\<lparr>rpn := (rpn st)\<lparr>data := data (rpn st) @ takeWhile (binds_tighter token) stack\<rparr>,
              pendingOperations :=
                (pendingOperations st)
                  (parenLevel st \<mapsto> token # dropWhile (binds_tighter token) stack)\<rparr>)"
    using step_operator_on_stack[OF tok] h by blast
next
  fix op below
  assume tok: "in_operators token"
  assume h: "pendingOperations st (parenLevel st) = Some (op # below) \<and> in_operators op
               \<and> priority op = priority token"
  obtain p where p: "priority token = Some p"
    using tok in_operators_priority by blast
  show "step st token =
      Inr (st\<lparr>pendingOperations := (pendingOperations st)(parenLevel st \<mapsto> token # op # below)\<rparr>)"
    using in_operators_not_paren[OF tok] tok h p by (simp add: step_def)
next
  show "map_sum id data (generateRPN ''a&b&c'') = Inr [''var1'', ''var2'', ''var3'', ''&'', ''&'']"
    by code_simp
qed

text \<open>The rule at concrete states of level 0: \<^verbatim>\<open>&\<close> on an empty stack is pushed; \<^verbatim>\<open>|\<close> on the
  stack \<^verbatim>\<open>~\<close> over \<^verbatim>\<open>&\<close> over \<^verbatim>\<open><\<close> pops and emits \<^verbatim>\<open>~\<close> and \<^verbatim>\<open>&\<close> and is pushed on \<^verbatim>\<open><\<close>;
  \<^verbatim>\<open>&\<close> on the stack \<^verbatim>\<open>&\<close> pops nothing.\<close>

theorem operator_pops_strictly_greater_priority_witness:
  "in_operators ''&'' \<and> in_operators ''|''
   \<and> step (with_stack []) ''&'' = Inr (with_stack [''&''])
   \<and> step (with_stack [''~'', ''&'', ''<'']) ''|''
       = Inr ((with_stack [''|'', ''<''])\<lparr>rpn := (rpn initial_state)\<lparr>data := [''~'', ''&'']\<rparr>\<rparr>)
   \<and> step (with_stack [''&'']) ''&'' = Inr (with_stack [''&'', ''&''])"
proof -
  have a: "in_operators ''&''" and b: "in_operators ''|''"
    by (simp_all add: in_operators_iff)
  have l: "pendingOperations (with_stack stack) (parenLevel (with_stack stack)) = Some stack" for stack
    by (simp add: with_stack_def initial_state_def)
  have u: "(with_stack stack)\<lparr>pendingOperations :=
              (pendingOperations (with_stack stack))(parenLevel (with_stack stack) \<mapsto> stack')\<rparr>
           = with_stack stack'" for stack stack'
    by (simp add: with_stack_def initial_state_def)
  have d: "rpn (with_stack stack) = rpn initial_state" for stack
    by (simp add: with_stack_def)
  have 1: "step (with_stack []) ''&'' = Inr (with_stack [''&''])"
    using operator_pops_strictly_greater_priority[OF a, of "with_stack []"] l[of "[]"]
    by (simp only: u) simp
  have t: "takeWhile (binds_tighter ''|'') [''~'', ''&'', ''<''] = [''~'', ''&'']"
          "dropWhile (binds_tighter ''|'') [''~'', ''&'', ''<''] = [''<'']"
    by (simp_all add: binds_tighter_def priority_def operators_def)
  have "step (with_stack [''~'', ''&'', ''<'']) ''|''
       = Inr ((with_stack [''~'', ''&'', ''<''])
               \<lparr>rpn := (rpn (with_stack [''~'', ''&'', ''<'']))
                         \<lparr>data := data (rpn (with_stack [''~'', ''&'', ''<'']))
                                    @ takeWhile (binds_tighter ''|'') [''~'', ''&'', ''<'']\<rparr>,
                 pendingOperations :=
                   (pendingOperations (with_stack [''~'', ''&'', ''<'']))
                     (parenLevel (with_stack [''~'', ''&'', ''<''])
                        \<mapsto> ''|'' # dropWhile (binds_tighter ''|'') [''~'', ''&'', ''<''])\<rparr>)"
    using operator_pops_strictly_greater_priority[OF b, of "with_stack [''~'', ''&'', ''<'']"]
      l[of "[''~'', ''&'', ''<'']"] a
    by (simp add: in_operators_iff)
  then have 2: "step (with_stack [''~'', ''&'', ''<'']) ''|''
       = Inr ((with_stack [''|'', ''<''])\<lparr>rpn := (rpn initial_state)\<lparr>data := [''~'', ''&'']\<rparr>\<rparr>)"
    by (simp only: t) (simp add: with_stack_def initial_state_def)
  have 3: "step (with_stack [''&'']) ''&'' = Inr (with_stack [''&'', ''&''])"
    using operator_pops_strictly_greater_priority[OF a, of "with_stack [''&'']"] l[of "[''&'']"] a
    by (simp only: u)
  show ?thesis
    using a b 1 2 3 by simp
qed

subsection \<open>Parentheses\<close>

text \<open>
  Claim C5. On \<^verbatim>\<open>(\<close> the level is incremented and nothing else changes: no stack is
  created for the new level. On \<^verbatim>\<open>)\<close> the stack of the current level is read; where the
  level has no stack, reading its length raises \<^verbatim>\<open>TypeError\<close>. Compiling \<^verbatim>\<open>(p)\<close>
  therefore fails at \<^verbatim>\<open>)\<close> instead of returning the program p, and so does \<^verbatim>\<open>((p&q))\<close>,
  while \<^verbatim>\<open>(p&q)\<close>, whose group holds an operator, compiles.
\<close>

theorem group_without_operator_raises:
  "generateRPN ''(p)'' = Inl TypeError
   \<and> generateRPN ''((p&q))'' = Inl TypeError
   \<and> scan initial_state ''(p'' =
       Inr (initial_state\<lparr>rpn := handle_variable (rpn initial_state) ''p'', parenLevel := 1\<rparr>)
   \<and> pendingOperations
        (initial_state\<lparr>rpn := handle_variable (rpn initial_state) ''p'', parenLevel := 1\<rparr>) 1 = None
   \<and> map_sum id data (generateRPN ''(p&q)'') = Inr [''var1'', ''var2'', ''&'']"
proof (intro conjI)
  show "generateRPN ''(p)'' = Inl TypeError"
    by code_simp
  show "generateRPN ''((p&q))'' = Inl TypeError"
    by code_simp
  show "scan initial_state ''(p'' =
       Inr (initial_state\<lparr>rpn := handle_variable (rpn initial_state) ''p'', parenLevel := 1\<rparr>)"
    by (simp add: step_def in_operators_iff initial_state_def)
  show "pendingOperations
        (initial_state\<lparr>rpn := handle_variable (rpn initial_state) ''p'', parenLevel := 1\<rparr>) 1 = None"
    by (simp add: initial_state_def)
  show "map_sum id data (generateRPN ''(p&q)'') = Inr [''var1'', ''var2'', ''&'']"
    by code_simp
qed

subsection \<open>Unbalanced input\<close>

text \<open>
  Claim C6, as the code has it. Compiling \<^verbatim>\<open>(p&q\<close> raises nothing: it returns the program
  p q &, the very result of compiling \<^verbatim>\<open>p&q\<close>. The unmatched \<^verbatim>\<open>(\<close> only moves the scan to
  level 1, whose stack the final drain empties.
\<close>

theorem unmatched_open_paren_is_not_detected:
  "generateRPN ''(p&q'' =
     Inr \<lparr>data = [''var1'', ''var2'', ''&''], codeVars = [''var1'', ''var2''],
          mathToCodeVars = [(''p'', ''var1''), (''q'', ''var2'')],
          codeToMathVars = [(''var1'', ''p''), (''var2'', ''q'')],
          variableCount = 2\<rparr>
   \<and> generateRPN ''(p&q'' = generateRPN ''p&q''"
proof (intro conjI)
  show "generateRPN ''(p&q'' =
     Inr \<lparr>data = [''var1'', ''var2'', ''&''], codeVars = [''var1'', ''var2''],
          mathToCodeVars = [(''p'', ''var1''), (''q'', ''var2'')],
          codeToMathVars = [(''var1'', ''p''), (''var2'', ''q'')],
          variableCount = 2\<rparr>"
    by code_simp
  show "generateRPN ''(p&q'' = generateRPN ''p&q''"
    by code_simp
qed

text \<open>The claim as the specification states it, that \<^verbatim>\<open>(p&q\<close> is reported as an error, is
  false: the result is not an error value.\<close>

theorem unmatched_open_paren_counterexample:
  "\<not> isl (generateRPN ''(p&q'')"
  by code_simp

subsection \<open>The operators of the numeric replay\<close>

text \<open>
  Claim C7. On operands that are 0 or 1, one step of the numeric replay pops the right
  operand first and the left operand second, and computes: NOT x as 1 - x; AND, OR and XOR
  as the bitwise operations; IMPLIES as 0 exactly when left is 1 and right is 0; IFF as 1
  exactly when left equals right. The result is appended to the row's cells and pushed.
  The operand pushed first (the left one of the infix text) is the one popped second.
\<close>

theorem operator_semantics:
  "left \<in> {0, 1} \<Longrightarrow> right \<in> {0, 1} \<Longrightarrow>
   evaluate vals [Str ''~''] (cells, Some left # stack)
     = (cells @ [1 - left], Some (1 - left) # stack)
   \<and> evaluate vals [Str ''&''] (cells, Some right # Some left # stack)
     = (cells @ [left AND right], Some (left AND right) # stack)
   \<and> evaluate vals [Str ''|''] (cells, Some right # Some left # stack)
     = (cells @ [left OR right], Some (left OR right) # stack)
   \<and> evaluate vals [Str ''^''] (cells, Some right # Some left # stack)
     = (cells @ [left XOR right], Some (left XOR right) # stack)
   \<and> evaluate vals [Str ''>''] (cells, Some right # Some left # stack)
     = (cells @ [if left = 1 \<and> right = 0 then 0 else 1],
        Some (if left = 1 \<and> right = 0 then 0 else 1) # stack)
   \<and> evaluate vals [Str ''<''] (cells, Some right # Some left # stack)
     = (cells @ [if left = right then 1 else 0], Some (if left = right then 1 else 0) # stack)
   \<and> evaluate [left, right] [Num 0, Num 1] ([], []) = ([], [Some right, Some left])"
  by (auto simp: apply_operator_def js_nth_def js_not_def truthy_def to_int32_def)

theorem operator_semantics_witness:
  "(1::int) \<in> {0, 1} \<and> (0::int) \<in> {0, 1}
   \<and> evaluate [] [Str ''~''] ([], [Some 1]) = ([0], [Some 0])
   \<and> evaluate [] [Str ''&''] ([], [Some 0, Some 1]) = ([0], [Some 0])
   \<and> evaluate [] [Str ''|''] ([], [Some 0, Some 1]) = ([1], [Some 1])
   \<and> evaluate [] [Str ''^''] ([], [Some 0, Some 1]) = ([1], [Some 1])
   \<and> evaluate [] [Str ''>''] ([], [Some 0, Some 1]) = ([0], [Some 0])
   \<and> evaluate [] [Str ''<''] ([], [Some 0, Some 1]) = ([0], [Some 0])
   \<and> evaluate [1, 0] [Num 0, Num 1] ([], []) = ([], [Some 0, Some 1])"
  using operator_semantics[of 1 0 "[]" "[]" "[]"] by simp

subsection \<open>Row enumeration\<close>

lemma toggle_length: "length (toggle n r i vals) = length vals"
proof (induction n r i vals rule: toggle.induct)
  case (1 n r i vals)
  then show ?case
    by (subst toggle.simps) simp
qed

lemma toggle_nth:
  "length vals = n \<Longrightarrow> j < n \<Longrightarrow>
   toggle n r i vals ! j =
     (if i \<le> j \<and> r mod 2 ^ (n - j - 1) = 0 then js_not (Some (vals ! j)) else vals ! j)"
proof (induction n r i vals rule: toggle.induct)
  case (1 n r i vals)
  show ?case
  proof (cases "i < n")
    case True
    let ?vals' = "if r mod 2 ^ (n - i - 1) = 0 then vals[i := js_not (js_nth vals i)] else vals"
    have len: "length ?vals' = n"
      using "1.prems" by simp
    have step: "toggle n r i vals = toggle n r (i + 1) ?vals'"
      using True by (subst toggle.simps) simp
    have ih: "toggle n r (i + 1) ?vals' ! j =
        (if i + 1 \<le> j \<and> r mod 2 ^ (n - j - 1) = 0 then js_not (Some (?vals' ! j)) else ?vals' ! j)"
      using "1.IH"[OF True len "1.prems"(2)] .
    show ?thesis
    proof (cases "j = i")
      case True
      then show ?thesis
        using step ih "1.prems" by (simp add: js_nth_def)
    next
      case False
      then show ?thesis
        using step ih "1.prems" by (auto simp: js_nth_def)
    qed
  next
    case False
    then show ?thesis
      using "1.prems" by (subst toggle.simps) simp
  qed
qed

lemma bit_after_increment:
  "bit (Suc m) k \<longleftrightarrow> (if Suc m mod 2 ^ k = 0 then \<not> bit m k else bit m k)"
  by (simp add: bit_iff_odd div_Suc)

lemma toggle_assignment:
  assumes "vals = (if r = 0 then replicate n 0 else assignment n (r - 1))"
  shows "toggle n r 0 vals = assignment n r"
proof (rule nth_equalityI)
  have len: "length vals = n"
    using assms by (simp add: assignment_def)
  show "length (toggle n r 0 vals) = length (assignment n r)"
    using len by (simp add: toggle_length assignment_def)
  fix j assume "j < length (toggle n r 0 vals)"
  then have j: "j < n"
    using len by (simp add: toggle_length)
  have e: "toggle n r 0 vals ! j =
      (if r mod 2 ^ (n - j - 1) = 0 then js_not (Some (vals ! j)) else vals ! j)"
    using toggle_nth[OF len j, of r 0] by simp
  show "toggle n r 0 vals ! j = assignment n r ! j"
  proof (cases r)
    case 0
    then have "vals ! j = 0"
      using assms j by simp
    then show ?thesis
      using 0 j e by (simp add: assignment_def js_not_def truthy_def)
  next
    case (Suc m)
    then have "vals ! j = (if bit m (n - j - 1) then 0 else 1)"
      using assms j by (simp add: assignment_def)
    then show ?thesis
      using Suc j e bit_after_increment[of m "n - j - 1"]
      by (simp add: assignment_def js_not_def truthy_def)
  qed
qed

lemma runs_assignment:
  "vals = (if r = 0 then replicate n 0 else assignment n (r - 1)) \<Longrightarrow>
   runs n program r vals =
     map (\<lambda>q. (assignment n q, fst (evaluate (assignment n q) program ([], [])))) [r..<2 ^ n]"
proof (induction n program r vals rule: runs.induct)
  case (1 n program r vals)
  show ?case
  proof (cases "r < 2 ^ n")
    case True
    have t: "toggle n r 0 vals = assignment n r"
      using toggle_assignment[OF "1.prems"] .
    have "runs n program (r + 1) (assignment n r) =
       map (\<lambda>q. (assignment n q, fst (evaluate (assignment n q) program ([], [])))) [r + 1..<2 ^ n]"
      using "1.IH"[OF True refl refl] t by simp
    then show ?thesis
      using True t by (subst runs.simps) (simp add: upt_conv_Cons Let_def)
  next
    case False
    then show ?thesis
      by (subst runs.simps) simp
  qed
qed

lemma table_rows_eq:
  "table_rows r =
     map (\<lambda>q. (assignment (variableCount r) q,
                fst (evaluate (assignment (variableCount r) q) (convert r) ([], []))))
       [0..<2 ^ variableCount r]"
  by (simp add: table_rows_def runs_assignment)

lemma not_bit_above: "q < 2 ^ n \<Longrightarrow> n \<le> k \<Longrightarrow> \<not> bit (q::nat) k"
proof -
  assume a: "q < 2 ^ n" "n \<le> k"
  have "(2::nat) ^ n \<le> 2 ^ k" using a(2) by simp
  then have "q < 2 ^ k" using a(1) by linarith
  then show ?thesis by (simp add: bit_iff_odd)
qed

lemma assignment_inj:
  assumes "assignment n q = assignment n q'" "q < 2 ^ n" "q' < 2 ^ n"
  shows "q = q'"
proof (rule bit_eqI)
  fix k
  show "bit q k \<longleftrightarrow> bit q' k"
  proof (cases "k < n")
    case True
    then have i: "n - k - 1 < n" "n - (n - k - 1) - 1 = k" by auto
    have "assignment n q ! (n - k - 1) = assignment n q' ! (n - k - 1)"
      using assms(1) by simp
    then show ?thesis
      using i by (simp add: assignment_def split: if_splits)
  next
    case False
    then show ?thesis
      using assms(2,3) not_bit_above[of _ n k] by simp
  qed
qed

lemma distinct_assignments: "distinct (map (assignment n) [0..<2 ^ n])"
  by (auto simp: distinct_map inj_on_def intro: assignment_inj)

lemma assignments_cover:
  "set (map (assignment n) [0..<2 ^ n]) = {vs. set vs \<subseteq> {0, 1} \<and> length vs = n}"
proof (rule card_subset_eq)
  show "finite {vs. set vs \<subseteq> {0, 1::int} \<and> length vs = n}"
    by (rule finite_lists_length_eq) simp
  show "set (map (assignment n) [0..<2 ^ n]) \<subseteq> {vs. set vs \<subseteq> {0, 1} \<and> length vs = n}"
    by (auto simp: assignment_def)
  have "card (set (map (assignment n) [0..<2 ^ n])) = 2 ^ n"
    using distinct_card[OF distinct_assignments, of n] by simp
  moreover have "card {vs. set vs \<subseteq> {0, 1::int} \<and> length vs = n} = 2 ^ n"
    by (simp add: card_lists_length_eq numeral_2_eq_2)
  ultimately show "card (set (map (assignment n) [0..<2 ^ n])) = card {vs. set vs \<subseteq> {0, 1::int} \<and> length vs = n}"
    by simp
qed

lemma assignment_first: "assignment n 0 = replicate n 1"
  by (simp add: assignment_def map_replicate_const)

lemma assignment_last: "assignment n (2 ^ n - 1) = replicate n 0"
proof -
  have m: "(2::nat) ^ n - 1 = mask n"
    by (simp add: mask_eq_exp_minus_1)
  have "\<And>i. i < n \<Longrightarrow> bit ((2::nat) ^ n - 1) (n - i - 1)"
    unfolding m by (simp add: bit_mask_iff)
  then have "assignment n (2 ^ n - 1) = map (\<lambda>i. 0) [0..<n]"
    unfolding assignment_def by (intro map_cong) auto
  then show ?thesis by (simp add: map_replicate_const)
qed

text \<open>
  Claim C1. For a table over N variables (N the variable count of the compilation) the body
  has exactly \<open>2 ^ N\<close> rows; in the row of run number q the variable at position i is the
  complement of bit \<open>N - i - 1\<close> of q, which is what the toggling of \<^verbatim>\<open>values[i]\<close> at every
  run number divisible by \<open>2 ^ (N - i - 1)\<close> computes; the rows are pairwise different
  and are exactly the lists of N values 0 or 1, so every assignment appears exactly
  once; row 0 is all 1 (true) and row \<open>2 ^ N - 1\<close> is all 0 (false). The cells of
  a row are the numeric replay under that row's assignment.
\<close>

theorem rows_are_complemented_binary_counting:
  "length (table_rows r) = 2 ^ variableCount r
   \<and> (\<forall>q i. q < 2 ^ variableCount r \<and> i < variableCount r \<longrightarrow>
         fst (table_rows r ! q) ! i = (if bit q (variableCount r - i - 1) then 0 else 1))
   \<and> (\<forall>q. q < 2 ^ variableCount r \<longrightarrow>
         length (fst (table_rows r ! q)) = variableCount r
         \<and> snd (table_rows r ! q) = fst (evaluate (fst (table_rows r ! q)) (convert r) ([], [])))
   \<and> distinct (map fst (table_rows r))
   \<and> set (map fst (table_rows r)) = {vs. set vs \<subseteq> {0, 1} \<and> length vs = variableCount r}
   \<and> fst (table_rows r ! 0) = replicate (variableCount r) 1
   \<and> fst (table_rows r ! (2 ^ variableCount r - 1)) = replicate (variableCount r) 0"
proof -
  let ?n = "variableCount r"
  have rows: "map fst (table_rows r) = map (assignment ?n) [0..<2 ^ ?n]"
    by (simp add: table_rows_eq comp_def)
  have len: "length (table_rows r) = 2 ^ ?n"
    by (simp add: table_rows_eq)
  have row: "table_rows r ! q =
      (assignment ?n q, fst (evaluate (assignment ?n q) (convert r) ([], [])))"
    if "q < 2 ^ ?n" for q
    using that by (simp add: table_rows_eq)
  have bits: "\<forall>q i. q < 2 ^ ?n \<and> i < ?n \<longrightarrow>
      fst (table_rows r ! q) ! i = (if bit q (?n - i - 1) then 0 else 1)"
    by (simp add: row assignment_def)
  have cells: "\<forall>q. q < 2 ^ ?n \<longrightarrow>
      length (fst (table_rows r ! q)) = ?n
      \<and> snd (table_rows r ! q) = fst (evaluate (fst (table_rows r ! q)) (convert r) ([], []))"
    by (simp add: row assignment_def)
  have dist: "distinct (map fst (table_rows r))"
    unfolding rows by (rule distinct_assignments)
  have cover: "set (map fst (table_rows r)) = {vs. set vs \<subseteq> {0, 1} \<and> length vs = ?n}"
    unfolding rows by (rule assignments_cover)
  have first: "fst (table_rows r ! 0) = replicate ?n 1"
    by (simp add: row assignment_first)
  have lt: "2 ^ ?n - 1 < (2::nat) ^ ?n"
    by simp
  have last: "fst (table_rows r ! (2 ^ ?n - 1)) = replicate ?n 0"
    by (simp only: row[OF lt] fst_conv assignment_last)
  show ?thesis
    using len bits cells dist cover first last by blast
qed

text \<open>The table of \<^verbatim>\<open>p&q\<close>: four rows, (1,1), (1,0), (0,1), (0,0) in this order.\<close>

theorem rows_are_complemented_binary_counting_witness:
  "length (table_rows p_and_q) = 4
   \<and> fst (table_rows p_and_q ! 0) = [1, 1]
   \<and> fst (table_rows p_and_q ! 1) ! 0 = 1 \<and> fst (table_rows p_and_q ! 1) ! 1 = 0
   \<and> fst (table_rows p_and_q ! 2) ! 0 = 0 \<and> fst (table_rows p_and_q ! 2) ! 1 = 1
   \<and> fst (table_rows p_and_q ! 3) = [0, 0]
   \<and> snd (table_rows p_and_q ! 1) = fst (evaluate (fst (table_rows p_and_q ! 1)) (convert p_and_q) ([], []))"
proof -
  have n: "variableCount p_and_q = 2"
    by (simp add: p_and_q_def)
  have p: "(2::nat) ^ 2 = 4" "(4::nat) - 1 = 3"
    by simp_all
  have rep: "replicate 2 (1::int) = [1, 1]" "replicate 2 (0::int) = [0, 0]"
    by (simp_all add: numeral_2_eq_2)
  note t = rows_are_complemented_binary_counting[of p_and_q, unfolded n p rep]
  have b: "fst (table_rows p_and_q ! q) ! i = (if bit q (2 - i - 1) then 0 else 1)"
    if "q < 4" "i < 2" for q i
    using t that by blast
  have c: "snd (table_rows p_and_q ! q)
      = fst (evaluate (fst (table_rows p_and_q ! q)) (convert p_and_q) ([], []))"
    if "q < 4" for q
    using t that by blast
  have b10: "fst (table_rows p_and_q ! 1) ! 0 = 1"
    using b[of 1 0] by (simp add: bit_iff_odd)
  have b11: "fst (table_rows p_and_q ! 1) ! 1 = 0"
    using b[of 1 1] by (simp add: bit_iff_odd)
  have b20: "fst (table_rows p_and_q ! 2) ! 0 = 0"
    using b[of 2 0] by (simp add: bit_iff_odd)
  have b21: "fst (table_rows p_and_q ! 2) ! 1 = 1"
    using b[of 2 1] by (simp add: bit_iff_odd)
  show ?thesis
    using t b10 b11 b20 b21 c[of 1] by simp
qed

subsection \<open>Numeric and symbolic replay\<close>

lemma convert_map: "convert r = map (converted_token r) (data r)"
  by (simp add: convert_def converted_token_def)

lemma indexOf_None: "indexOf xs v = None \<longleftrightarrow> v \<notin> set xs"
  by (induction xs) auto

lemma indexOf_less: "indexOf xs v = Some i \<Longrightarrow> i < length xs \<and> xs ! i = v"
  by (induction xs arbitrary: i) (auto split: if_splits)

lemma js_pop_zero_one:
  "set stack \<subseteq> {Some 0, Some (1::int)} \<Longrightarrow> js_pop stack = (x, s) \<Longrightarrow>
   x \<in> {None, Some 0, Some 1} \<and> set s \<subseteq> {Some 0, Some 1}"
  by (cases stack) auto

lemma to_int32_zero_one: "x \<in> {None, Some 0, Some 1} \<Longrightarrow> to_int32 x \<in> {0, 1}"
  by (auto simp: to_int32_def)

lemma bitwise_zero_one:
  "a \<in> {0, 1::int} \<Longrightarrow> b \<in> {0, 1} \<Longrightarrow> a AND b \<in> {0, 1} \<and> a OR b \<in> {0, 1} \<and> a XOR b \<in> {0, 1}"
  by auto

lemma apply_operator_zero_one:
  assumes "set stack \<subseteq> {Some 0, Some 1}" "apply_operator token stack = (v, s)"
  shows "v \<in> {0, 1} \<and> set s \<subseteq> {Some 0, Some 1}"
proof -
  obtain x s1 where p1: "js_pop stack = (x, s1)"
    by (cases "js_pop stack")
  obtain y s2 where p2: "js_pop s1 = (y, s2)"
    by (cases "js_pop s1")
  have 1: "x \<in> {None, Some 0, Some 1}" "set s1 \<subseteq> {Some 0, Some 1}"
    using js_pop_zero_one[OF assms(1) p1] by auto
  have 2: "y \<in> {None, Some 0, Some 1}" "set s2 \<subseteq> {Some 0, Some 1}"
    using js_pop_zero_one[OF 1(2) p2] by auto
  have b: "to_int32 y AND to_int32 x \<in> {0, 1}" "to_int32 y OR to_int32 x \<in> {0, 1}"
      "to_int32 y XOR to_int32 x \<in> {0, 1}"
    using bitwise_zero_one[OF to_int32_zero_one[OF 2(1)] to_int32_zero_one[OF 1(1)]] by auto
  show ?thesis
    using assms(2) 1 2 b assms(1)
    by (auto simp: apply_operator_def p1 p2 js_not_def split: if_splits)
qed

lemma evaluate_zero_one:
  "set vals \<subseteq> {0, 1} \<Longrightarrow> \<forall>i. Num i \<in> set program \<longrightarrow> i < length vals \<Longrightarrow> zero_one acc \<Longrightarrow>
   zero_one (evaluate vals program acc)"
proof (induction program arbitrary: acc)
  case Nil
  then show ?case by simp
next
  case (Cons x program)
  obtain cells stack where acc: "acc = (cells, stack)"
    by (cases acc)
  show ?case
  proof (cases x)
    case (Num i)
    then have "i < length vals"
      using Cons.prems(2) by simp
    then have "vals ! i \<in> {0, 1}" "js_nth vals i = Some (vals ! i)"
      using Cons.prems(1) nth_mem by (blast, simp add: js_nth_def)
    then have "js_nth vals i \<in> {Some 0, Some 1}"
      by auto
    then have "zero_one (cells, js_nth vals i # stack)"
      using Cons.prems(3) by (simp add: zero_one_def acc)
    then show ?thesis
      using Cons.IH[of "(cells, js_nth vals i # stack)"] Cons.prems(1,2) by (simp add: acc Num)
  next
    case (Str token)
    obtain v s where a: "apply_operator token stack = (v, s)"
      by (cases "apply_operator token stack")
    have "v \<in> {0, 1} \<and> set s \<subseteq> {Some 0, Some 1}"
      using apply_operator_zero_one[OF _ a] Cons.prems(3) by (simp add: zero_one_def acc)
    then have "zero_one (cells @ [v], Some v # s)"
      using Cons.prems(3) by (auto simp: zero_one_def acc)
    then show ?thesis
      using Cons.IH[of "(cells @ [v], Some v # s)"] Cons.prems(1,2) by (simp add: acc Str a)
  qed
qed

lemma convert_indices:
  "length (codeVars r) \<le> n \<Longrightarrow> Num i \<in> set (take k (convert r)) \<Longrightarrow> i < n"
proof -
  assume a: "length (codeVars r) \<le> n" "Num i \<in> set (take k (convert r))"
  then have "Num i \<in> set (convert r)"
    by (meson in_set_takeD)
  then obtain v where "converted_token r v = Num i"
    by (auto simp: convert_map)
  then have "indexOf (codeVars r) v = Some i"
    by (auto simp: converted_token_def split: option.splits)
  then show ?thesis
    using indexOf_less a(1) by fastforce
qed


lemma table_row_cases:
  assumes "row \<in> set (table_rows r)"
  obtains q where "q < 2 ^ variableCount r" "fst row = assignment (variableCount r) q"
    "snd row = fst (evaluate (fst row) (convert r) ([], []))"
  using assms by (auto simp: table_rows_eq)

lemma assignment_zero_one: "set (assignment n q) \<subseteq> {0, 1}"
  by (auto simp: assignment_def)

lemma intToChar_zero_one: "v \<in> {0, 1} \<Longrightarrow> intToChar v = Some ''T'' \<or> intToChar v = Some ''F''"
  by (auto simp: intToChar_def)

text \<open>
  Claim C10. For a compilation result whose variable identifiers all have a value (the
  variable count is at least the number of identifiers; \<^verbatim>\<open>generateRPN\<close> makes them equal), in
  every row of the table: the values of the variables are 0 or 1; the cells are those of the
  numeric replay and are 0 or 1; after every prefix of the program every element of the
  operating stack is a defined number 0 or 1, so every value ever pushed is 0 or 1; and
  \<^verbatim>\<open>intToChar\<close> is defined on every value of the row, giving \<^verbatim>\<open>T\<close> or \<^verbatim>\<open>F\<close>. This holds
  whether or not the operators find their operands: a pop of the empty stack yields
  undefined, which every operator turns into 0 or 1.
\<close>

theorem numeric_replay_stays_in_zero_one:
  "length (codeVars r) \<le> variableCount r \<Longrightarrow>
   \<forall>row\<in>set (table_rows r).
      set (fst row) \<subseteq> {0, 1}
      \<and> snd row = fst (evaluate (fst row) (convert r) ([], []))
      \<and> set (snd row) \<subseteq> {0, 1}
      \<and> (\<forall>n. set (snd (evaluate (fst row) (take n (convert r)) ([], []))) \<subseteq> {Some 0, Some 1})
      \<and> (\<forall>v\<in>set (fst row) \<union> set (snd row). intToChar v = Some ''T'' \<or> intToChar v = Some ''F'')"
proof
  fix row
  assume le: "length (codeVars r) \<le> variableCount r" and row: "row \<in> set (table_rows r)"
  obtain q where q: "fst row = assignment (variableCount r) q"
      "snd row = fst (evaluate (fst row) (convert r) ([], []))"
    using row by (rule table_row_cases)
  have vals: "set (fst row) \<subseteq> {0, 1}"
    using q(1) assignment_zero_one by simp
  have len: "length (fst row) = variableCount r"
    using q(1) by (simp add: assignment_def)
  have z: "zero_one (evaluate (fst row) (take n (convert r)) ([], []))" for n
  proof (rule evaluate_zero_one[OF vals])
    show "\<forall>i. Num i \<in> set (take n (convert r)) \<longrightarrow> i < length (fst row)"
      using convert_indices[OF le] len by auto
    show "zero_one ([], [])"
      by (simp add: zero_one_def)
  qed
  have "zero_one (evaluate (fst row) (take (length (convert r)) (convert r)) ([], []))"
    by (rule z)
  then have cells: "set (snd row) \<subseteq> {0, 1}"
    using q(2) by (simp add: zero_one_def)
  have stacks: "\<forall>n. set (snd (evaluate (fst row) (take n (convert r)) ([], []))) \<subseteq> {Some 0, Some 1}"
    using z by (simp add: zero_one_def)
  have chars: "\<forall>v\<in>set (fst row) \<union> set (snd row). intToChar v = Some ''T'' \<or> intToChar v = Some ''F''"
    using vals cells intToChar_zero_one by blast
  show "set (fst row) \<subseteq> {0, 1}
      \<and> snd row = fst (evaluate (fst row) (convert r) ([], []))
      \<and> set (snd row) \<subseteq> {0, 1}
      \<and> (\<forall>n. set (snd (evaluate (fst row) (take n (convert r)) ([], []))) \<subseteq> {Some 0, Some 1})
      \<and> (\<forall>v\<in>set (fst row) \<union> set (snd row). intToChar v = Some ''T'' \<or> intToChar v = Some ''F'')"
    using vals q(2) cells stacks chars by blast
qed

text \<open>The row (1, 0) of the table of \<^verbatim>\<open>p&q\<close>.\<close>

theorem numeric_replay_stays_in_zero_one_witness:
  "length (codeVars p_and_q) \<le> variableCount p_and_q
   \<and> ([1, 0], [0]) \<in> set (table_rows p_and_q)
   \<and> set (snd (evaluate [1, 0] (take 2 (convert p_and_q)) ([], []))) \<subseteq> {Some 0, Some 1}
   \<and> snd (evaluate [1, 0] (take 2 (convert p_and_q)) ([], [])) = [Some 0, Some 1]
   \<and> intToChar 1 = Some ''T'' \<and> intToChar 0 = Some ''F''"
proof -
  have le: "length (codeVars p_and_q) \<le> variableCount p_and_q"
    by (simp add: p_and_q_def)
  have rows: "table_rows p_and_q = [([1, 1], [1]), ([1, 0], [0]), ([0, 1], [0]), ([0, 0], [0])]"
    by code_simp
  have mem: "([1, 0], [0]) \<in> set (table_rows p_and_q)"
    by (simp add: rows)
  have "set (snd (evaluate (fst ([1, 0], [0::int])) (take 2 (convert p_and_q)) ([], [])))
      \<subseteq> {Some 0, Some 1}"
    using numeric_replay_stays_in_zero_one[OF le] mem by blast
  then have sub: "set (snd (evaluate [1, 0] (take 2 (convert p_and_q)) ([], []))) \<subseteq> {Some 0, Some 1}"
    by simp
  have stack: "snd (evaluate [1, 0] (take 2 (convert p_and_q)) ([], [])) = [Some 0, Some 1]"
    by code_simp
  have chars: "intToChar 1 = Some ''T''" "intToChar 0 = Some ''F''"
    by (simp_all add: intToChar_def)
  show ?thesis
    using le mem sub stack chars by blast
qed

lemma js_pop_length: "length (snd (js_pop s)) = length s - 1"
  by (cases s) auto

lemma apply_operator_length:
  "in_operators t \<Longrightarrow>
   length (snd (apply_operator t s)) = (if t = ''~'' then length s - 1 else length s - 2)"
proof -
  assume "in_operators t"
  then have t: "t \<in> {''~'', ''&'', ''|'', ''^'', ''>'', ''<''}"
    by (simp add: in_operators_iff)
  obtain x s1 where p1: "js_pop s = (x, s1)"
    by (cases "js_pop s")
  obtain y s2 where p2: "js_pop s1 = (y, s2)"
    by (cases "js_pop s1")
  have l: "length s1 = length s - 1" "length s2 = length s - 2"
    using js_pop_length[of s] js_pop_length[of s1] by (simp_all add: p1 p2)
  show ?thesis
    using t l by (auto simp: apply_operator_def p1 p2)
qed

lemma replay_lockstep:
  "\<forall>t\<in>set ts. in_operators t \<noteq> (t \<in> set (codeVars r)) \<Longrightarrow> length sstack = length nstack \<Longrightarrow>
   length (fst (simulate r ts (labels, sstack))) = length labels + length (filter in_operators ts)
   \<and> length (fst (evaluate vals (map (converted_token r) ts) (cells, nstack)))
       = length cells + length (filter in_operators ts)
   \<and> length (snd (simulate r ts (labels, sstack)))
       = length (snd (evaluate vals (map (converted_token r) ts) (cells, nstack)))"
proof (induction ts arbitrary: labels sstack cells nstack)
  case Nil
  then show ?case by simp
next
  case (Cons t ts)
  have rest: "\<forall>t\<in>set ts. in_operators t \<noteq> (t \<in> set (codeVars r))"
    using Cons.prems(1) by simp
  show ?case
  proof (cases "in_operators t")
    case True
    then have "t \<notin> set (codeVars r)"
      using Cons.prems(1) by simp
    then have c: "converted_token r t = Str t"
      using indexOf_None[of "codeVars r" t] by (simp add: converted_token_def)
    obtain p latex where o: "map_of operators t = Some (p, latex)"
      using True by (auto simp: in_operators_def)
    obtain v s where a: "apply_operator t nstack = (v, s)"
      by (cases "apply_operator t nstack")
    have ls: "length s = (if t = ''~'' then length nstack - 1 else length nstack - 2)"
      using apply_operator_length[OF True, of nstack] by (simp add: a)
    obtain x s1 where p1: "js_pop sstack = (x, s1)"
      by (cases "js_pop sstack")
    obtain y s2 where p2: "js_pop s1 = (y, s2)"
      by (cases "js_pop s1")
    have l: "length s1 = length sstack - 1" "length s2 = length sstack - 2"
      using js_pop_length[of sstack] js_pop_length[of s1] by (simp_all add: p1 p2)
    have ev: "evaluate vals (map (converted_token r) (t # ts)) (cells, nstack)
        = evaluate vals (map (converted_token r) ts) (cells @ [v], Some v # s)"
      using c a by simp
    have count: "length (filter in_operators (t # ts)) = Suc (length (filter in_operators ts))"
      using True by simp
    show ?thesis
    proof (cases "t = ''~''")
      case True
      have sim: "simulate r (t # ts) (labels, sstack)
          = simulate r ts (labels @ [overline x], Some (overline x) # s1)"
        using True o p1 by (simp add: Let_def)
      have "length (Some (overline x) # s1) = length (Some v # s)"
        using l ls True Cons.prems(2) by simp
      from Cons.IH[OF rest this, of "labels @ [overline x]" "cells @ [v]"]
      show ?thesis
        unfolding sim ev count by simp
    next
      case False
      have sim: "simulate r (t # ts) (labels, sstack)
          = simulate r ts (labels @ [js_str y @ latex @ js_str x], Some (js_str y @ latex @ js_str x) # s2)"
        using False o p1 p2 by (simp add: Let_def)
      have "length (Some (js_str y @ latex @ js_str x) # s2) = length (Some v # s)"
        using l ls False Cons.prems(2) by simp
      from Cons.IH[OF rest this, of "labels @ [js_str y @ latex @ js_str x]" "cells @ [v]"]
      show ?thesis
        unfolding sim ev count by simp
    qed
  next
    case False
    then have "t \<in> set (codeVars r)"
      using Cons.prems(1) by simp
    then obtain i where i: "indexOf (codeVars r) t = Some i"
      using indexOf_None[of "codeVars r" t] by auto
    have o: "map_of operators t = None"
      using False unfolding in_operators_def by blast
    have "length (map_of (codeToMathVars r) t # sstack) = length (js_nth vals i # nstack)"
      using Cons.prems(2) by simp
    from Cons.IH[OF rest this, of labels cells]
    show ?thesis
      using False by (simp add: converted_token_def i o)
  qed
qed






























subsection \<open>Variable identifiers\<close>

lemma string_to_number_snoc:
  "string_to_number (s @ [c]) = 10 * string_to_number s + (of_char c - 48)"
  by (simp add: string_to_number_def)

lemma digit_char_value: "d < 10 \<Longrightarrow> (of_char (digit_char d) :: nat) - 48 = d"
  by (simp add: digit_char_def)

lemma string_to_number_inverse: "string_to_number (number_to_string n) = n"
proof (induction n rule: number_to_string.induct)
  case (1 n)
  show ?case
  proof (cases "n < 10")
    case True
    then show ?thesis
      by (subst number_to_string.simps) (simp add: string_to_number_def digit_char_value)
  next
    case False
    then have "string_to_number (number_to_string (n div 10)) = n div 10"
      using 1 by simp
    then show ?thesis
      using False
      by (subst number_to_string.simps) (simp add: string_to_number_snoc digit_char_value)
  qed
qed

lemma codeVar_inj: "codeVar a = codeVar b \<Longrightarrow> a = b"
  by (metis codeVar_def same_append_eq string_to_number_inverse)

lemma codeVar_not_operator: "\<not> in_operators (codeVar k)"
  by (simp add: codeVar_def in_operators_iff)

lemma distinct_codeVars: "distinct (map (\<lambda>k. codeVar (Suc k)) [0..<n])"
  by (auto simp: distinct_map inj_on_def dest: codeVar_inj)

lemma object_set_fresh: "key \<notin> fst ` set obj \<Longrightarrow> object_set obj key v = obj @ [(key, v)]"
  by (induction obj) auto

lemma first_occurrences_snoc:
  "first_occurrences (xs @ [x]) =
     (if x \<in> set xs then first_occurrences xs else first_occurrences xs @ [x])"
  by (simp add: first_occurrences_def)

lemma set_first_occurrences: "set (first_occurrences xs) = set xs"
  by (simp add: first_occurrences_def)

lemma distinct_first_occurrences: "distinct (first_occurrences xs)"
  by (simp add: first_occurrences_def)

lemma tables_lookup_None:
  "tables_of vars r \<Longrightarrow> map_of (mathToCodeVars r) t = None \<longleftrightarrow> t \<notin> set vars"
  by (simp add: tables_of_def map_of_zip_is_None)

lemma handle_variable_known:
  "map_of (mathToCodeVars r) t = Some known \<Longrightarrow> handle_variable r t = r\<lparr>data := data r @ [known]\<rparr>"
  by (simp add: handle_variable_def)

lemma handle_variable_new:
  assumes "tables_of vars r" "t \<notin> set vars"
  shows "handle_variable r t =
     r\<lparr>variableCount := Suc (length vars),
       codeVars := codeVars r @ [codeVar (Suc (length vars))],
       mathToCodeVars := mathToCodeVars r @ [(t, codeVar (Suc (length vars)))],
       codeToMathVars := codeToMathVars r @ [(codeVar (Suc (length vars)), t)],
       data := data r @ [codeVar (Suc (length vars))]\<rparr>"
proof -
  have none: "map_of (mathToCodeVars r) t = None"
    using assms tables_lookup_None by blast
  have n: "variableCount r = length vars"
    using assms(1) by (simp add: tables_of_def)
  have "t \<notin> fst ` set (mathToCodeVars r)"
    using none by (simp add: map_of_eq_None_iff)
  then have m: "object_set (mathToCodeVars r) t v = mathToCodeVars r @ [(t, v)]" for v
    by (rule object_set_fresh)
  have "fst ` set (codeToMathVars r) \<subseteq> set (codeVars r)"
    using assms(1) by (auto simp: tables_of_def dest: set_zip_leftD)
  moreover have "codeVar (Suc (length vars)) \<notin> set (codeVars r)"
    using assms(1) by (auto simp: tables_of_def dest: codeVar_inj)
  ultimately have "codeVar (Suc (length vars)) \<notin> fst ` set (codeToMathVars r)"
    by blast
  then have c: "object_set (codeToMathVars r) (codeVar (Suc (length vars))) v
      = codeToMathVars r @ [(codeVar (Suc (length vars)), v)]" for v
    by (rule object_set_fresh)
  note c' = c[unfolded codeVar_def, simplified]
  show ?thesis
    by (simp add: handle_variable_def none n m c' Let_def codeVar_def)
qed

lemma tables_of_new:
  assumes "tables_of vars r" "t \<notin> set vars"
  shows "tables_of (vars @ [t]) (handle_variable r t)"
  using assms(1) unfolding handle_variable_new[OF assms] by (simp add: tables_of_def)


lemma drain_append: "drain out stack = (out @ stack, [])"
  by (induction stack arbitrary: out) auto

lemma map_of_snoc:
  "map_of (al @ [(t, v)]) x =
     (case map_of al x of Some y \<Rightarrow> Some y | None \<Rightarrow> if x = t then Some v else None)"
  by (induction al) auto

lemma tables_value_is_codeVar:
  "tables_of vars r \<Longrightarrow> map_of (mathToCodeVars r) t = Some known \<Longrightarrow> known \<in> set (codeVars r)"
  by (auto simp: tables_of_def dest!: map_of_SomeD set_zip_rightD)

lemma tables_codeVars_not_operators:
  "tables_of vars r \<Longrightarrow> known \<in> set (codeVars r) \<Longrightarrow> \<not> in_operators known"
  by (auto simp: tables_of_def codeVar_not_operator)

lemma variables_snoc:
  "variables (pre @ [c]) =
     (if is_variable [c] then
        (if [c] \<in> set (variables pre) then variables pre else variables pre @ [[c]])
      else variables pre)"
  by (simp add: variables_def tokens_def first_occurrences_snoc set_first_occurrences)

lemma set_variables: "set (variables pre) = {t \<in> set (tokens pre). is_variable t}"
  by (auto simp: variables_def set_first_occurrences)

lemma scan_invariant_emit:
  assumes "scan_invariant pre st" "\<forall>op\<in>set ops. in_operators op"
    "\<forall>level stack. po level = Some stack \<longrightarrow> (\<forall>op\<in>set stack. in_operators op)"
    "\<not> is_variable [c]"
  shows "scan_invariant (pre @ [c])
           (st\<lparr>rpn := (rpn st)\<lparr>data := data (rpn st) @ ops\<rparr>, pendingOperations := po, parenLevel := l\<rparr>)"
  using assms
  by (auto simp: scan_invariant_def variables_snoc tokens_def tables_of_def stacks_hold_operators_def)

lemma scan_invariant_variable:
  assumes inv: "scan_invariant pre st" and var: "is_variable [c]"
  shows "scan_invariant (pre @ [c]) (st\<lparr>rpn := handle_variable (rpn st) [c]\<rparr>)"
proof -
  let ?r = "rpn st" and ?vars = "variables pre"
  have tab: "tables_of ?vars ?r"
    and ops: "stacks_hold_operators st"
    and occ: "map (map_of (mathToCodeVars ?r)) (filter is_variable (tokens pre))
          = map Some (filter (\<lambda>t. \<not> in_operators t) (data ?r))"
    and dat: "set (data ?r) \<subseteq> {t. in_operators t} \<union> set (codeVars ?r)"
    using inv by (simp_all add: scan_invariant_def)
  show ?thesis
  proof (cases "[c] \<in> set ?vars")
    case True
    then obtain known where k: "map_of (mathToCodeVars ?r) [c] = Some known"
      using tables_lookup_None[OF tab, of "[c]"] by auto
    have kc: "known \<in> set (codeVars ?r)"
      using tables_value_is_codeVar[OF tab k] .
    have kn: "\<not> in_operators known"
      using tables_codeVars_not_operators[OF tab kc] .
    show ?thesis
      using tab ops occ dat var True k kc kn
      by (simp add: scan_invariant_def handle_variable_known[OF k] variables_snoc tokens_def
          tables_of_def stacks_hold_operators_def)
  next
    case False
    let ?cv = "codeVar (Suc (length ?vars))"
    have new: "handle_variable ?r [c] =
       ?r\<lparr>variableCount := Suc (length ?vars),
         codeVars := codeVars ?r @ [?cv],
         mathToCodeVars := mathToCodeVars ?r @ [([c], ?cv)],
         codeToMathVars := codeToMathVars ?r @ [(?cv, [c])],
         data := data ?r @ [?cv]\<rparr>"
      using handle_variable_new[OF tab False] .
    have tab': "tables_of (?vars @ [[c]]) (handle_variable ?r [c])"
      using tables_of_new[OF tab False] .
    have old: "map_of (mathToCodeVars ?r @ [([c], ?cv)]) x = map_of (mathToCodeVars ?r) x"
      if "x \<in> set (filter is_variable (tokens pre))" for x
    proof -
      have "x \<in> set ?vars"
        using that by (simp add: set_variables)
      then obtain y where "map_of (mathToCodeVars ?r) x = Some y"
        using tables_lookup_None[OF tab, of x] by auto
      then show ?thesis
        by (subst map_of_snoc) simp
    qed
    have none: "map_of (mathToCodeVars ?r) [c] = None"
      using tables_lookup_None[OF tab, of "[c]"] False by simp
    have m1: "map (map_of (mathToCodeVars ?r @ [([c], ?cv)])) (filter is_variable (tokens pre))
        = map (map_of (mathToCodeVars ?r)) (filter is_variable (tokens pre))"
      by (rule map_cong[OF refl]) (rule old)
    have m2: "map_of (mathToCodeVars ?r @ [([c], ?cv)]) [c] = Some ?cv"
      by (subst map_of_snoc) (simp add: none)
    have occ': "map (map_of (mathToCodeVars ?r @ [([c], ?cv)])) (filter is_variable (tokens pre) @ [[c]])
        = map Some (filter (\<lambda>t. \<not> in_operators t) (data ?r) @ [?cv])"
      by (simp only: map_append list.map m1 m2 occ)
    have dat': "set (data ?r @ [?cv]) \<subseteq> {t. in_operators t} \<union> set (codeVars ?r @ [?cv])"
      using dat by auto
    have ops': "stacks_hold_operators (st\<lparr>rpn := handle_variable ?r [c]\<rparr>)"
      using ops by (simp add: stacks_hold_operators_def)
    show ?thesis
      unfolding scan_invariant_def
      using tab' ops' occ' dat' var False
      by (simp add: new variables_snoc tokens_def codeVar_not_operator)
  qed
qed

lemma step_preserves_invariant:
  assumes inv: "scan_invariant pre st" and step: "step st [c] = Inr st1"
  shows "scan_invariant (pre @ [c]) st1"
proof -
  have ops: "\<forall>level stack. pendingOperations st level = Some stack \<longrightarrow> (\<forall>op\<in>set stack. in_operators op)"
    using inv by (simp add: scan_invariant_def stacks_hold_operators_def)
  consider (lparen) "[c] = ''(''" | (rparen) "[c] = '')''" | (operator) "in_operators [c]"
    | (variable) "is_variable [c]"
    by (auto simp: is_variable_def)
  then show ?thesis
  proof cases
    case lparen
    then have "st1 = st\<lparr>parenLevel := parenLevel st + 1\<rparr>"
      using step by (simp add: step_def)
    moreover have "\<not> is_variable [c]"
      using lparen by (simp add: is_variable_def)
    ultimately show ?thesis
      using scan_invariant_emit[OF inv, of "[]" "pendingOperations st" c "parenLevel st + 1"] ops
      by simp
  next
    case rparen
    then obtain stack where s: "pendingOperations st (parenLevel st) = Some stack"
      using step by (auto simp: step_def split: option.splits)
    have st1: "st1 = st\<lparr>rpn := (rpn st)\<lparr>data := data (rpn st) @ stack\<rparr>,
        pendingOperations := (pendingOperations st)(parenLevel st \<mapsto> []),
        parenLevel := parenLevel st - 1\<rparr>"
      using step rparen s by (simp add: step_def drain_append)
    have nv: "\<not> is_variable [c]"
      using rparen by (simp add: is_variable_def)
    show ?thesis
      unfolding st1
      by (rule scan_invariant_emit[OF inv _ _ nv]) (use ops s in auto)
  next
    case operator
    have nv: "\<not> is_variable [c]"
      using operator by (simp add: is_variable_def)
    show ?thesis
    proof (cases "pendingOperations st (parenLevel st) = None \<or> pendingOperations st (parenLevel st) = Some []")
      case True
      then have st1: "st1 = st\<lparr>pendingOperations := (pendingOperations st)(parenLevel st \<mapsto> [[c]])\<rparr>"
        using step_operator_on_empty[OF operator, of st] step by simp
      show ?thesis
        using scan_invariant_emit[OF inv, of "[]" "(pendingOperations st)(parenLevel st \<mapsto> [[c]])" c "parenLevel st"]
          ops operator nv
        by (simp add: st1)
    next
      case False
      then obtain stack where s: "pendingOperations st (parenLevel st) = Some stack" "stack \<noteq> []"
        by auto
      have all: "\<forall>op\<in>set stack. in_operators op"
        using ops s by blast
      have st1: "st1 = st\<lparr>rpn := (rpn st)\<lparr>data := data (rpn st) @ takeWhile (binds_tighter [c]) stack\<rparr>,
          pendingOperations :=
            (pendingOperations st)(parenLevel st \<mapsto> [c] # dropWhile (binds_tighter [c]) stack)\<rparr>"
        using step_operator_on_stack[OF operator s all] step by simp
      have a: "\<forall>op\<in>set (takeWhile (binds_tighter [c]) stack). in_operators op"
        using all by (meson set_takeWhileD)
      have b: "\<forall>op\<in>set ([c] # dropWhile (binds_tighter [c]) stack). in_operators op"
        using all operator by (auto dest: set_dropWhileD)
      show ?thesis
        using scan_invariant_emit[OF inv a, of
            "(pendingOperations st)(parenLevel st \<mapsto> [c] # dropWhile (binds_tighter [c]) stack)"
            c "parenLevel st"] ops b nv
        by (simp add: st1)
    qed
  next
    case variable
    then have "st1 = st\<lparr>rpn := handle_variable (rpn st) [c]\<rparr>"
      using step by (simp add: step_def is_variable_def)
    then show ?thesis
      using scan_invariant_variable[OF inv variable] by simp
  qed
qed

lemma scan_induct_prefix:
  assumes "scan st ts = Inr st'" "P pre st"
    "\<And>pre st c st1. P pre st \<Longrightarrow> step st [c] = Inr st1 \<Longrightarrow> P (pre @ [c]) st1"
  shows "P (pre @ ts) st'"
  using assms(1,2)
proof (induction ts arbitrary: st pre)
  case Nil
  then show ?case by simp
next
  case (Cons c ts)
  then obtain st1 where s: "step st [c] = Inr st1" "scan st1 ts = Inr st'"
    by (auto split: sum.splits)
  have "P (pre @ [c]) st1"
    using assms(3)[OF Cons.prems(2) s(1)] .
  from Cons.IH[OF s(2) this]
  show ?case by simp
qed

lemma scan_invariant_initial: "scan_invariant [] initial_state"
  by (simp add: scan_invariant_def initial_state_def variables_def tokens_def first_occurrences_def
      tables_of_def stacks_hold_operators_def)

lemma scan_invariant_scan:
  "scan initial_state s = Inr st \<Longrightarrow> scan_invariant s st"
  using scan_induct_prefix[of initial_state s st scan_invariant "[]"]
    scan_invariant_initial step_preserves_invariant by auto

lemma generateRPN_cases:
  assumes "generateRPN s = Inr r"
  obtains st stack where "scan initial_state (trim s) = Inr st"
    "pendingOperations st (parenLevel st) = Some stack"
    "r = (rpn st)\<lparr>data := data (rpn st) @ stack\<rparr>"
  using assms by (auto simp: generateRPN_def drain_append split: sum.splits option.splits)


lemma remdups_snoc: "remdups (ys @ [x]) = remdups (removeAll x ys) @ [x]"
  by (induction ys) auto

lemma first_occurrences_Cons:
  "first_occurrences (x # xs) = x # first_occurrences (removeAll x xs)"
proof -
  have "removeAll x (rev xs) = rev (removeAll x xs)"
    by (simp add: removeAll_filter_not_eq rev_filter)
  then show ?thesis
    by (simp add: first_occurrences_def remdups_snoc)
qed

lemma generateRPN_invariant:
  assumes "generateRPN s = Inr r"
  shows "tables_of (variables (trim s)) r"
    and "map (map_of (mathToCodeVars r)) (filter is_variable (tokens (trim s)))
          = map Some (filter (\<lambda>t. \<not> in_operators t) (data r))"
    and "set (data r) \<subseteq> {t. in_operators t} \<union> set (codeVars r)"
proof -
  obtain st stack where st: "scan initial_state (trim s) = Inr st"
    "pendingOperations st (parenLevel st) = Some stack"
    "r = (rpn st)\<lparr>data := data (rpn st) @ stack\<rparr>"
    using assms by (rule generateRPN_cases)
  have inv: "scan_invariant (trim s) st"
    using scan_invariant_scan[OF st(1)] .
  then have ops: "\<forall>op\<in>set stack. in_operators op"
    using st(2) by (auto simp: scan_invariant_def stacks_hold_operators_def)
  show "tables_of (variables (trim s)) r"
    using inv by (simp add: scan_invariant_def st(3) tables_of_def)
  show "map (map_of (mathToCodeVars r)) (filter is_variable (tokens (trim s)))
          = map Some (filter (\<lambda>t. \<not> in_operators t) (data r))"
    using inv ops by (simp add: scan_invariant_def st(3))
  show "set (data r) \<subseteq> {t. in_operators t} \<union> set (codeVars r)"
    using inv ops by (auto simp: scan_invariant_def st(3))
qed

lemma generateRPN_program_tokens:
  assumes "generateRPN s = Inr r"
  shows "\<forall>t\<in>set (data r). in_operators t \<noteq> (t \<in> set (codeVars r))"
    and "variableCount r = length (codeVars r)"
proof -
  have tab: "tables_of (variables (trim s)) r"
    and dat: "set (data r) \<subseteq> {t. in_operators t} \<union> set (codeVars r)"
    using generateRPN_invariant[OF assms] by blast+
  show "\<forall>t\<in>set (data r). in_operators t \<noteq> (t \<in> set (codeVars r))"
    using dat tables_codeVars_not_operators[OF tab] by blast
  show "variableCount r = length (codeVars r)"
    using tab by (simp add: tables_of_def)
qed

lemma zip_swap_set: "(x, y) \<in> set (zip xs ys) \<longleftrightarrow> (y, x) \<in> set (zip ys xs)"
  by (metis in_set_zip fst_conv snd_conv)

text \<open>
  Claim C8. When compilation returns, with \<open>vars\<close> the distinct variable symbols of the
  trimmed input (every token that is neither an operator nor a parenthesis) in the order of
  their first occurrences: the variable count is the number of these symbols; the list of
  identifiers is \<^verbatim>\<open>var1\<close>, \<^verbatim>\<open>var2\<close>, ... (the pre-incremented counter, so the k-th distinct
  symbol gets the number k) and has no repetition; the symbol-to-identifier dictionary
  pairs the k-th symbol with the k-th identifier and the identifier-to-symbol dictionary
  pairs them the other way round, in the same order, so each is the inverse of the other
  and their keys are exactly the symbols and the identifiers; and the operands of the
  postfix program are, in order, the identifiers of the variable occurrences of the
  input, a repeated symbol giving the identifier it already has.
\<close>

theorem variable_identifiers:
  "generateRPN s = Inr r \<Longrightarrow>
     distinct (variables (trim s))
   \<and> set (variables (trim s)) = {t \<in> set (tokens (trim s)). is_variable t}
   \<and> variableCount r = length (variables (trim s))
   \<and> codeVars r = map (\<lambda>k. codeVar (Suc k)) [0..<length (variables (trim s))]
   \<and> distinct (codeVars r)
   \<and> mathToCodeVars r = zip (variables (trim s)) (codeVars r)
   \<and> codeToMathVars r = zip (codeVars r) (variables (trim s))
   \<and> (\<forall>k. k < length (variables (trim s)) \<longrightarrow>
         map_of (mathToCodeVars r) (variables (trim s) ! k) = Some (codeVar (Suc k))
         \<and> map_of (codeToMathVars r) (codeVar (Suc k)) = Some (variables (trim s) ! k))
   \<and> (\<forall>x y. map_of (mathToCodeVars r) x = Some y \<longleftrightarrow> map_of (codeToMathVars r) y = Some x)
   \<and> map (map_of (mathToCodeVars r)) (filter is_variable (tokens (trim s)))
       = map Some (filter (\<lambda>t. \<not> in_operators t) (data r))"
proof -
  assume gen: "generateRPN s = Inr r"
  let ?vars = "variables (trim s)"
  have tab: "tables_of ?vars r"
    and occ: "map (map_of (mathToCodeVars r)) (filter is_variable (tokens (trim s)))
       = map Some (filter (\<lambda>t. \<not> in_operators t) (data r))"
    using generateRPN_invariant[OF gen] by blast+
  have dv: "distinct ?vars"
    by (simp add: variables_def distinct_first_occurrences)
  have sv: "set ?vars = {t \<in> set (tokens (trim s)). is_variable t}"
    by (rule set_variables)
  have n: "variableCount r = length ?vars"
    and cv: "codeVars r = map (\<lambda>k. codeVar (Suc k)) [0..<length ?vars]"
    and m: "mathToCodeVars r = zip ?vars (codeVars r)"
    and c: "codeToMathVars r = zip (codeVars r) ?vars"
    using tab by (simp_all add: tables_of_def)
  have len: "length (codeVars r) = length ?vars"
    using cv by simp
  have dc: "distinct (codeVars r)"
    unfolding cv by (rule distinct_codeVars)
  have nth: "\<forall>k. k < length ?vars \<longrightarrow>
         map_of (mathToCodeVars r) (?vars ! k) = Some (codeVar (Suc k))
         \<and> map_of (codeToMathVars r) (codeVar (Suc k)) = Some (?vars ! k)"
  proof (intro allI impI)
    fix k assume k: "k < length ?vars"
    have ck: "codeVars r ! k = codeVar (Suc k)"
      using k by (simp add: cv)
    have "map_of (zip ?vars (codeVars r)) (?vars ! k) = Some (codeVars r ! k)"
      using map_of_zip_nth[of ?vars "codeVars r" k] len dv k by simp
    moreover have "map_of (zip (codeVars r) ?vars) (codeVars r ! k) = Some (?vars ! k)"
      using map_of_zip_nth[of "codeVars r" ?vars k] len dc k by simp
    ultimately show "map_of (mathToCodeVars r) (?vars ! k) = Some (codeVar (Suc k))
         \<and> map_of (codeToMathVars r) (codeVar (Suc k)) = Some (?vars ! k)"
      by (simp add: m[symmetric] c[symmetric] ck)
  qed
  have inverse: "\<forall>x y. map_of (mathToCodeVars r) x = Some y \<longleftrightarrow> map_of (codeToMathVars r) y = Some x"
  proof (intro allI)
    fix x y
    have d1: "distinct (map fst (zip ?vars (codeVars r)))"
      using dv len by simp
    have d2: "distinct (map fst (zip (codeVars r) ?vars))"
      using dc len by simp
    have "map_of (zip ?vars (codeVars r)) x = Some y \<longleftrightarrow> (x, y) \<in> set (zip ?vars (codeVars r))"
      using d1 by simp
    moreover have "map_of (zip (codeVars r) ?vars) y = Some x \<longleftrightarrow> (y, x) \<in> set (zip (codeVars r) ?vars)"
      using d2 by simp
    ultimately show "map_of (mathToCodeVars r) x = Some y \<longleftrightarrow> map_of (codeToMathVars r) y = Some x"
      using zip_swap_set[of x y ?vars "codeVars r"] by (simp add: m[symmetric] c[symmetric])
  qed
  show ?thesis
    using dv sv n cv dc m c nth inverse occ by blast
qed


text \<open>The input \<^verbatim>\<open>q&p|q\<close>: q is \<^verbatim>\<open>var1\<close>, p is \<^verbatim>\<open>var2\<close>, and the second q is \<^verbatim>\<open>var1\<close> again.\<close>

theorem variable_identifiers_witness:
  "generateRPN ''q&p|q'' = Inr q_and_p_or_q
   \<and> variables (trim ''q&p|q'') = [''q'', ''p'']
   \<and> codeVar 1 = ''var1'' \<and> codeVar 2 = ''var2''
   \<and> variableCount q_and_p_or_q = 2
   \<and> codeVars q_and_p_or_q = [codeVar 1, codeVar 2]
   \<and> map_of (mathToCodeVars q_and_p_or_q) ''q'' = Some (codeVar 1)
   \<and> map_of (mathToCodeVars q_and_p_or_q) ''p'' = Some (codeVar 2)
   \<and> map_of (codeToMathVars q_and_p_or_q) (codeVar 1) = Some ''q''
   \<and> map_of (codeToMathVars q_and_p_or_q) (codeVar 2) = Some ''p''
   \<and> map (map_of (mathToCodeVars q_and_p_or_q)) [''q'', ''p'', ''q'']
       = map Some [''var1'', ''var2'', ''var1'']"
proof -
  have gen: "generateRPN ''q&p|q'' = Inr q_and_p_or_q"
    by code_simp
  have vars: "variables (trim ''q&p|q'') = [''q'', ''p'']"
    by code_simp
  have names: "codeVar 1 = ''var1''" "codeVar 2 = ''var2''"
    by code_simp+
  have toks: "filter is_variable (tokens (trim ''q&p|q'')) = [''q'', ''p'', ''q'']"
    by code_simp
  have dat: "filter (\<lambda>t. \<not> in_operators t) (data q_and_p_or_q) = [''var1'', ''var2'', ''var1'']"
    by code_simp
  note t = variable_identifiers[OF gen, unfolded vars toks dat]
  have n: "variableCount q_and_p_or_q = 2"
    using t by simp
  have cv: "codeVars q_and_p_or_q = [codeVar 1, codeVar 2]"
    using t by (simp add: numeral_2_eq_2)
  have la: "\<forall>k. k < length [''q'', ''p''] \<longrightarrow>
         map_of (mathToCodeVars q_and_p_or_q) ([''q'', ''p''] ! k) = Some (codeVar (Suc k))
         \<and> map_of (codeToMathVars q_and_p_or_q) (codeVar (Suc k)) = Some ([''q'', ''p''] ! k)"
    using t by blast
  have l0: "map_of (mathToCodeVars q_and_p_or_q) ''q'' = Some (codeVar 1)
      \<and> map_of (codeToMathVars q_and_p_or_q) (codeVar 1) = Some ''q''"
    using la[rule_format, of 0] by simp
  have l1: "map_of (mathToCodeVars q_and_p_or_q) ''p'' = Some (codeVar 2)
      \<and> map_of (codeToMathVars q_and_p_or_q) (codeVar 2) = Some ''p''"
    using la[rule_format, of 1] by (simp add: numeral_2_eq_2)
  have occ: "map (map_of (mathToCodeVars q_and_p_or_q)) [''q'', ''p'', ''q'']
       = map Some [''var1'', ''var2'', ''var1'']"
    using t by blast
  show ?thesis
    using gen vars names n cv l0 l1 occ by blast
qed

subsection \<open>Well-formed input gives a well-formed postfix program\<close>

lemma syntax_run_snoc:
  "syntax_run state (s @ [c]) = (case syntax_run state s of None \<Rightarrow> None | Some x \<Rightarrow> syntax_step x c)"
  by (simp add: syntax_run_def)

lemma syntax_run_Cons:
  "syntax_run (Some x) (c # s) = syntax_run (syntax_step x c) s"
  by (simp add: syntax_run_def)

lemma formula_run:
  "formula e \<Longrightarrow> syntax_run (Some (True, d)) (e @ rest) = syntax_run (Some (False, d)) rest"
proof (induction e arbitrary: d rest rule: formula.induct)
  case (variable c)
  then show ?case
    by (auto simp: syntax_run_Cons is_variable_def in_operators_iff)
next
  case (negation e)
  then show ?case
    by (simp add: syntax_run_Cons)
next
  case (binary a b c)
  have "c \<noteq> CHR '')''"
    using binary.hyps(3) by (auto simp: in_operators_iff)
  then have "syntax_run (Some (False, d)) (c # b @ rest) = syntax_run (Some (True, d)) (b @ rest)"
    using binary.hyps(3,4) by (simp add: syntax_run_Cons)
  then show ?case
    using binary.IH(1)[of d "c # b @ rest"] binary.IH(2)[of d rest] by simp
next
  case (group e)
  have "syntax_run (Some (True, d)) (CHR ''('' # e @ '')'' @ rest)
      = syntax_run (Some (True, Suc d)) (e @ CHR '')'' # rest)"
    by (simp add: syntax_run_Cons)
  also have "\<dots> = syntax_run (Some (False, Suc d)) (CHR '')'' # rest)"
    using group.IH by simp
  also have "\<dots> = syntax_run (Some (False, d)) rest"
    by (simp add: syntax_run_Cons)
  finally show ?case by simp
qed

lemma formula_wellformed: "formula e \<Longrightarrow> wellformed e"
  using formula_run[of e 0 "[]"] by (simp add: wellformed_def syntax_run_def)

lemma rpn_depth_append:
  "rpn_depth (xs @ ys) d = (case rpn_depth xs d of None \<Rightarrow> None | Some d' \<Rightarrow> rpn_depth ys d')"
  by (induction xs arbitrary: d) auto

lemma rpn_depth_operators:
  "\<forall>op\<in>set ops. in_operators op \<Longrightarrow> Suc (binary_count ops) \<le> d \<Longrightarrow>
   rpn_depth ops d = Some (d - binary_count ops)"
proof (induction ops arbitrary: d)
  case Nil
  then show ?case by (simp add: binary_count_def)
next
  case (Cons op ops)
  show ?case
  proof (cases "op = ''~''")
    case True
    then show ?thesis
      using Cons by (simp add: binary_count_def)
  next
    case False
    then have "rpn_depth ops (d - 1) = Some (d - 1 - binary_count ops)"
      using Cons by (simp add: binary_count_def)
    then show ?thesis
      using False Cons.prems by (simp add: binary_count_def)
  qed
qed

lemma emit_operators:
  assumes "rpn_depth out 0 = Some d" "\<forall>op\<in>set ops. in_operators op" "Suc (binary_count ops) \<le> d"
  shows "rpn_depth (out @ ops) 0 = Some (d - binary_count ops)"
  using assms by (simp add: rpn_depth_append rpn_depth_operators)

lemma emit_operand:
  assumes "rpn_depth out 0 = Some d" "\<not> in_operators t"
  shows "rpn_depth (out @ [t]) 0 = Some (Suc d)"
  using assms by (auto simp: rpn_depth_append in_operators_iff)

lemma pending_binary_update_above:
  "int d < level \<Longrightarrow> pending_binary (po(level := x)) d = pending_binary po d"
  by (induction d) auto

lemma pending_binary_update_top:
  "pending_binary (po(int d := x)) d + pending_count (po (int d)) = pending_binary po d + pending_count x"
  by (cases d) (auto simp: pending_binary_update_above)

lemma pending_count_le: "pending_count (po (int d)) \<le> pending_binary po d"
  by (cases d) auto

lemma binary_count_split:
  "binary_count (takeWhile P ops) + binary_count (dropWhile P ops) = binary_count ops"
proof -
  have "binary_count (takeWhile P ops @ dropWhile P ops) = binary_count ops"
    by simp
  then show ?thesis
    unfolding binary_count_def filter_append length_append .
qed

lemma nothing_binds_tighter_than_not:
  "binds_tighter ''~'' op = False"
proof (cases "priority op")
  case None
  then show ?thesis by (simp add: binds_tighter_def)
next
  case (Some p)
  then show ?thesis
    using priority_le_5[OF Some] by (simp add: binds_tighter_def priority_def operators_def)
qed


lemma handle_variable_data:
  assumes "tables_of vars r"
  shows "\<exists>tok. data (handle_variable r t) = data r @ [tok] \<and> \<not> in_operators tok"
proof (cases "map_of (mathToCodeVars r) t")
  case None
  then have "t \<notin> set vars"
    using tables_lookup_None[OF assms] by simp
  then show ?thesis
    using handle_variable_new[OF assms] codeVar_not_operator by simp
next
  case (Some known)
  then have "\<not> in_operators known"
    using tables_value_is_codeVar[OF assms Some] tables_codeVars_not_operators[OF assms] by blast
  then show ?thesis
    using handle_variable_known[OF Some] by simp
qed

lemma pending_count_empty:
  "x = None \<or> x = Some [] \<Longrightarrow> pending_count x = 0"
  by (auto simp: pending_count_def binary_count_def)

lemma step_preserves_depth:
  assumes inv: "scan_invariant pre st" and dep: "depth_invariant e d st"
    and syn: "syntax_step (e, d) c = Some (e', d')" and step: "step st [c] = Inr st1"
  shows "depth_invariant e' d' st1"
proof -
  let ?po = "pendingOperations st"
  have lvl: "parenLevel st = int d"
    and above: "\<And>level. int d < level \<Longrightarrow> ?po level = None \<or> ?po level = Some []"
    and depth: "rpn_depth (data (rpn st)) 0 = Some (pending_binary ?po d + (if e then 0 else 1))"
    using dep by (simp_all add: depth_invariant_def)
  have ops: "\<And>level stack. ?po level = Some stack \<Longrightarrow> \<forall>op\<in>set stack. in_operators op"
    using inv by (simp add: scan_invariant_def stacks_hold_operators_def)
  have tab: "tables_of (variables pre) (rpn st)"
    using inv by (simp add: scan_invariant_def)
  consider (lparen) "e" "c = CHR ''(''" "e'" "d' = Suc d"
    | (negation) "e" "c = CHR ''~''" "e'" "d' = d"
    | (variable) "e" "is_variable [c]" "\<not> e'" "d' = d"
    | (rparen) "\<not> e" "c = CHR '')''" "0 < d" "\<not> e'" "d' = d - 1"
    | (binary) "\<not> e" "in_operators [c]" "c \<noteq> CHR ''~''" "e'" "d' = d"
    using syn by (auto split: if_splits)
  then show ?thesis
  proof cases
    case lparen
    have st1: "st1 = st\<lparr>parenLevel := parenLevel st + 1\<rparr>"
      using step lparen by (simp add: step_def)
    have "pending_count (?po (int (Suc d))) = 0"
      using above[of "int (Suc d)"] by (simp add: pending_count_empty)
    then have "pending_binary ?po (Suc d) = pending_binary ?po d"
      by simp
    then show ?thesis
      using lparen lvl above depth by (simp add: depth_invariant_def st1)
  next
    case negation
    have op: "in_operators [c]"
      using negation by (simp add: in_operators_iff)
    show ?thesis
    proof (cases "?po (parenLevel st) = None \<or> ?po (parenLevel st) = Some []")
      case True
      have st1: "st1 = st\<lparr>pendingOperations := ?po(parenLevel st \<mapsto> [[c]])\<rparr>"
        using step_operator_on_empty[OF op True] step by simp
      have "pending_count (?po (int d)) = 0"
        using True lvl by (simp add: pending_count_empty)
      moreover have "pending_count (Some [[c]]) = 0"
        using negation by (simp add: pending_count_def binary_count_def)
      ultimately have "pending_binary (?po(int d \<mapsto> [[c]])) d = pending_binary ?po d"
        using pending_binary_update_top[of ?po d "Some [[c]]"] by simp
      then show ?thesis
        using negation lvl above depth by (simp add: depth_invariant_def st1)
    next
      case False
      then obtain stack where s: "?po (parenLevel st) = Some stack" "stack \<noteq> []"
        by auto
      have t: "takeWhile (binds_tighter [c]) stack = []" "dropWhile (binds_tighter [c]) stack = stack"
        using negation nothing_binds_tighter_than_not by (simp_all add: takeWhile_eq_Nil_iff)
      have st1: "st1 = st\<lparr>rpn := (rpn st)\<lparr>data := data (rpn st)\<rparr>,
          pendingOperations := ?po(parenLevel st \<mapsto> [c] # stack)\<rparr>"
        using step_operator_on_stack[OF op s ops[OF s(1)]] step by (simp add: t)
      have "pending_count (Some ([c] # stack)) = pending_count (?po (int d))"
        using negation s lvl by (simp add: pending_count_def binary_count_def)
      then have "pending_binary (?po(int d \<mapsto> [c] # stack)) d = pending_binary ?po d"
        using pending_binary_update_top[of ?po d "Some ([c] # stack)"] by simp
      then show ?thesis
        using negation lvl above depth by (simp add: depth_invariant_def st1)
    qed
  next
    case variable
    have st1: "st1 = st\<lparr>rpn := handle_variable (rpn st) [c]\<rparr>"
      using step variable by (simp add: step_def is_variable_def)
    obtain tok where tok: "data (handle_variable (rpn st) [c]) = data (rpn st) @ [tok]"
        "\<not> in_operators tok"
      using handle_variable_data[OF tab] by blast
    have "rpn_depth (data (rpn st) @ [tok]) 0 = Some (Suc (pending_binary ?po d))"
      using emit_operand[OF depth tok(2)] variable by simp
    then show ?thesis
      using variable lvl above by (simp add: depth_invariant_def st1 tok(1))
  next
    case rparen
    then obtain stack where s: "?po (parenLevel st) = Some stack"
      using step by (auto simp: step_def split: option.splits)
    have st1: "st1 = st\<lparr>rpn := (rpn st)\<lparr>data := data (rpn st) @ stack\<rparr>,
        pendingOperations := ?po(parenLevel st \<mapsto> []),
        parenLevel := parenLevel st - 1\<rparr>"
      using step rparen s by (simp add: step_def drain_append)
    obtain k where k: "d = Suc k"
      using rparen by (cases d) auto
    have pb: "pending_binary ?po d = binary_count stack + pending_binary ?po k"
      using s lvl k by (simp add: pending_count_def)
    have "rpn_depth (data (rpn st) @ stack) 0
        = Some (pending_binary ?po d + 1 - binary_count stack)"
      using emit_operators[OF _ ops[OF s]] depth rparen pb by simp
    then have d1: "rpn_depth (data (rpn st) @ stack) 0 = Some (pending_binary ?po k + 1)"
      using pb by simp
    have pb1: "pending_binary (?po(int d \<mapsto> [])) k = pending_binary ?po k"
      using k by (simp add: pending_binary_update_above)
    have above1: "(?po(int d \<mapsto> [])) level = None \<or> (?po(int d \<mapsto> [])) level = Some []"
      if "int k < level" for level
      using that above[of level] k by (cases "level = int d") auto
    show ?thesis
      using rparen k lvl d1 pb1 above1 by (simp add: depth_invariant_def st1)
  next
    case binary
    have op: "in_operators [c]"
      using binary by simp
    have one: "binary_count [[c]] = 1"
      using binary by (simp add: binary_count_def)
    show ?thesis
    proof (cases "?po (parenLevel st) = None \<or> ?po (parenLevel st) = Some []")
      case True
      have st1: "st1 = st\<lparr>pendingOperations := ?po(parenLevel st \<mapsto> [[c]])\<rparr>"
        using step_operator_on_empty[OF op True] step by simp
      have "pending_count (?po (int d)) = 0"
        using True lvl by (simp add: pending_count_empty)
      moreover have "pending_count (Some [[c]]) = 1"
        using one by (simp add: pending_count_def)
      ultimately have "pending_binary (?po(int d \<mapsto> [[c]])) d = pending_binary ?po d + 1"
        using pending_binary_update_top[of ?po d "Some [[c]]"] by simp
      then show ?thesis
        using binary lvl above depth by (simp add: depth_invariant_def st1)
    next
      case False
      then obtain stack where s: "?po (parenLevel st) = Some stack" "stack \<noteq> []"
        by auto
      let ?popped = "takeWhile (binds_tighter [c]) stack"
      let ?remaining = "dropWhile (binds_tighter [c]) stack"
      have st1: "st1 = st\<lparr>rpn := (rpn st)\<lparr>data := data (rpn st) @ ?popped\<rparr>,
          pendingOperations := ?po(parenLevel st \<mapsto> [c] # ?remaining)\<rparr>"
        using step_operator_on_stack[OF op s ops[OF s(1)]] step by simp
      have split: "binary_count ?popped + binary_count ?remaining = binary_count stack"
        by (rule binary_count_split)
      have le: "binary_count stack \<le> pending_binary ?po d"
        using pending_count_le[of ?po d] s lvl by (simp add: pending_count_def)
      have popped_ops: "\<forall>op\<in>set ?popped. in_operators op"
        using ops[OF s(1)] by (meson set_takeWhileD)
      have "rpn_depth (data (rpn st) @ ?popped) 0
          = Some (pending_binary ?po d + 1 - binary_count ?popped)"
        using emit_operators[OF _ popped_ops] depth binary split le by simp
      moreover have "pending_binary (?po(int d \<mapsto> [c] # ?remaining)) d + binary_count stack
          = pending_binary ?po d + (1 + binary_count ?remaining)"
        using pending_binary_update_top[of ?po d "Some ([c] # ?remaining)"] s lvl binary
        by (simp add: pending_count_def binary_count_def)
      ultimately have "rpn_depth (data (rpn st) @ ?popped) 0
          = Some (pending_binary (?po(int d \<mapsto> [c] # ?remaining)) d)"
        using split le by simp
      then show ?thesis
        using binary lvl above by (simp add: depth_invariant_def st1)
    qed
  qed
qed


lemma compile_invariant_initial: "compile_invariant [] initial_state"
proof -
  have "depth_invariant True 0 initial_state"
    by (simp add: depth_invariant_def initial_state_def pending_count_def binary_count_def)
  then show ?thesis
    using scan_invariant_initial by (simp add: compile_invariant_def syntax_run_def)
qed

lemma step_preserves_compile_invariant:
  assumes "compile_invariant pre st" "step st [c] = Inr st1"
  shows "compile_invariant (pre @ [c]) st1"
proof -
  have inv: "scan_invariant pre st"
    using assms(1) by (simp add: compile_invariant_def)
  have "depth_invariant e' d' st1" if "syntax_run (Some (True, 0)) (pre @ [c]) = Some (e', d')" for e' d'
  proof -
    have "(case syntax_run (Some (True, 0)) pre of None \<Rightarrow> None | Some x \<Rightarrow> syntax_step x c)
        = Some (e', d')"
      using that by (simp only: syntax_run_snoc)
    then obtain x where x: "syntax_run (Some (True, 0)) pre = Some x" "syntax_step x c = Some (e', d')"
      by (cases "syntax_run (Some (True, 0)) pre") simp_all
    obtain e d where run: "syntax_run (Some (True, 0)) pre = Some (e, d)"
      and syn: "syntax_step (e, d) c = Some (e', d')"
      using x by (cases x) simp
    have "depth_invariant e d st"
      using assms(1) run by (simp add: compile_invariant_def)
    then show ?thesis
      using step_preserves_depth[OF inv _ syn assms(2)] by simp
  qed
  then show ?thesis
    using step_preserves_invariant[OF inv assms(2)] by (simp add: compile_invariant_def)
qed

lemma compile_invariant_scan:
  "scan initial_state s = Inr st \<Longrightarrow> compile_invariant s st"
  using scan_induct_prefix[of initial_state s st compile_invariant "[]"]
    compile_invariant_initial step_preserves_compile_invariant by auto

lemma generateRPN_rpn_wellformed:
  assumes "wellformed (trim s)" "generateRPN s = Inr r"
  shows "rpn_wellformed (data r)"
proof -
  obtain st stack where st: "scan initial_state (trim s) = Inr st"
    "pendingOperations st (parenLevel st) = Some stack"
    "r = (rpn st)\<lparr>data := data (rpn st) @ stack\<rparr>"
    using assms(2) by (rule generateRPN_cases)
  have inv: "compile_invariant (trim s) st"
    using compile_invariant_scan[OF st(1)] .
  then have dep: "depth_invariant False 0 st"
    using assms(1) unfolding compile_invariant_def wellformed_def by blast
  have ops: "\<forall>op\<in>set stack. in_operators op"
    using inv st(2) by (auto simp: compile_invariant_def scan_invariant_def stacks_hold_operators_def)
  have lvl: "parenLevel st = 0"
    using dep by (simp add: depth_invariant_def)
  have "rpn_depth (data (rpn st)) 0 = Some (binary_count stack + 1)"
    using dep st(2) lvl by (simp add: depth_invariant_def pending_count_def)
  then have "rpn_depth (data (rpn st) @ stack) 0 = Some (binary_count stack + 1 - binary_count stack)"
    using emit_operators[OF _ ops] by simp
  then show ?thesis
    by (simp add: rpn_wellformed_def st(3))
qed

lemma evaluate_depth:
  "\<forall>t\<in>set ts. in_operators t \<noteq> (t \<in> set (codeVars r)) \<Longrightarrow> rpn_depth ts d0 = Some d \<Longrightarrow>
   length nstack = d0 \<Longrightarrow>
   length (snd (evaluate vals (map (converted_token r) ts) (cells, nstack))) = d"
proof (induction ts arbitrary: d0 cells nstack)
  case Nil
  then show ?case by simp
next
  case (Cons t ts)
  have rest: "\<forall>t\<in>set ts. in_operators t \<noteq> (t \<in> set (codeVars r))"
    using Cons.prems(1) by simp
  show ?case
  proof (cases "in_operators t")
    case True
    then have "t \<notin> set (codeVars r)"
      using Cons.prems(1) by simp
    then have c: "converted_token r t = Str t"
      using indexOf_None[of "codeVars r" t] by (simp add: converted_token_def)
    obtain v s where a: "apply_operator t nstack = (v, s)"
      by (cases "apply_operator t nstack")
    have ls: "length s = (if t = ''~'' then length nstack - 1 else length nstack - 2)"
      using apply_operator_length[OF True, of nstack] by (simp add: a)
    have ev: "evaluate vals (map (converted_token r) (t # ts)) (cells, nstack)
        = evaluate vals (map (converted_token r) ts) (cells @ [v], Some v # s)"
      using c a by simp
    show ?thesis
    proof (cases "t = ''~''")
      case True
      then have "rpn_depth ts d0 = Some d" "1 \<le> d0"
        using Cons.prems(2) by (simp_all split: if_splits)
      moreover have "length (Some v # s) = d0"
        using ls True Cons.prems(3) \<open>1 \<le> d0\<close> by simp
      ultimately show ?thesis
        unfolding ev using Cons.IH[OF rest] by blast
    next
      case False
      then have "rpn_depth ts (d0 - 1) = Some d" "2 \<le> d0"
        using Cons.prems(2) True by (simp_all split: if_splits)
      moreover have "length (Some v # s) = d0 - 1"
        using ls False Cons.prems(3) \<open>2 \<le> d0\<close> by simp
      ultimately show ?thesis
        unfolding ev using Cons.IH[OF rest] by blast
    qed
  next
    case False
    then have "t \<in> set (codeVars r)"
      using Cons.prems(1) by simp
    then obtain i where i: "indexOf (codeVars r) t = Some i"
      using indexOf_None[of "codeVars r" t] by auto
    have "t \<noteq> ''~''"
      using False by (auto simp: in_operators_iff)
    then have "rpn_depth ts (Suc d0) = Some d"
      using Cons.prems(2) False by simp
    moreover have "length (js_nth vals i # nstack) = Suc d0"
      using Cons.prems(3) by simp
    ultimately have "length (snd (evaluate vals (map (converted_token r) ts) (cells, js_nth vals i # nstack))) = d"
      using Cons.IH[OF rest] by blast
    then show ?thesis
      by (simp add: converted_token_def[of r t] i)
  qed
qed

lemma rpn_depth_before_operator:
  assumes "rpn_depth (xs @ t # ys) 0 = Some k" "in_operators t"
  shows "\<exists>dn. rpn_depth xs 0 = Some dn \<and> (if t = ''~'' then 1 else 2) \<le> dn"
proof (cases "rpn_depth xs 0")
  case None
  then show ?thesis
    using assms(1) by (simp add: rpn_depth_append)
next
  case (Some dn)
  then have "rpn_depth (t # ys) dn = Some k"
    using assms(1) by (simp add: rpn_depth_append)
  then show ?thesis
    using Some assms(2) by (auto split: if_splits)
qed

text \<open>
  Claim C2. For every input whose trimmed text is well-formed, the postfix program that
  \<^verbatim>\<open>generateRPN\<close> returns satisfies the stack discipline of postfix programs: it runs from the
  empty stack to a stack of exactly one value without an operator lacking an operand. In
  terms of the numeric replay itself, under any values: before every operator token the
  operating stack holds at least the operands the operator pops (one for \<^verbatim>\<open>~\<close>, two
  otherwise), and after the last token it holds exactly one value; the simulated stack
  of the symbolic replay ends with exactly one label. (Where compilation raises instead,
  which it does on some well-formed inputs such as \<^verbatim>\<open>(p)\<close>, there is no program; see
  claim C5.)
\<close>

theorem wellformed_input_gives_wellformed_postfix:
  "wellformed (trim s) \<Longrightarrow> generateRPN s = Inr r \<Longrightarrow>
     rpn_wellformed (data r)
   \<and> (\<forall>vals n. n < length (data r) \<and> in_operators (data r ! n) \<longrightarrow>
         (if data r ! n = ''~'' then 1 else 2)
           \<le> length (snd (evaluate vals (take n (convert r)) ([], []))))
   \<and> (\<forall>vals. length (snd (evaluate vals (convert r) ([], []))) = 1)
   \<and> length (snd (simulate r (data r) ([], []))) = 1"
proof -
  assume wf: "wellformed (trim s)" and gen: "generateRPN s = Inr r"
  have ok: "\<forall>t\<in>set (data r). in_operators t \<noteq> (t \<in> set (codeVars r))"
    using generateRPN_program_tokens(1)[OF gen] .
  have depth: "rpn_depth (data r) 0 = Some 1"
    using generateRPN_rpn_wellformed[OF wf gen] by (simp add: rpn_wellformed_def)
  have final: "length (snd (evaluate vals (convert r) ([], []))) = 1" for vals
    using evaluate_depth[OF ok depth, of "[]" vals "[]"] by (simp add: convert_map)
  have operands: "(if data r ! n = ''~'' then 1 else 2)
           \<le> length (snd (evaluate vals (take n (convert r)) ([], [])))"
    if n: "n < length (data r)" and op: "in_operators (data r ! n)" for vals n
  proof -
    have split: "data r = take n (data r) @ data r ! n # drop (Suc n) (data r)"
      using n by (simp add: id_take_nth_drop)
    obtain dn where dn: "rpn_depth (take n (data r)) 0 = Some dn"
        "(if data r ! n = ''~'' then 1 else 2) \<le> dn"
      using rpn_depth_before_operator[of "take n (data r)" "data r ! n" "drop (Suc n) (data r)" 1]
        depth split op by auto
    have "\<forall>t\<in>set (take n (data r)). in_operators t \<noteq> (t \<in> set (codeVars r))"
      using ok by (meson in_set_takeD)
    from evaluate_depth[OF this dn(1), of "[]" vals "[]"]
    have "length (snd (evaluate vals (take n (convert r)) ([], []))) = dn"
      by (simp add: convert_map take_map)
    then show ?thesis
      using dn(2) by simp
  qed
  have "length (snd (simulate r (data r) ([], [])))
      = length (snd (evaluate [] (convert r) ([], [])))"
    using replay_lockstep[OF ok, of "[]" "[]" "[]" "[]" "[]"] by (simp add: convert_map)
  then have sim: "length (snd (simulate r (data r) ([], []))) = 1"
    using final by simp
  show ?thesis
    using generateRPN_rpn_wellformed[OF wf gen] operands final sim by blast
qed

text \<open>The worked example: before its last token, \<^verbatim>\<open><\<close>, the stack holds two values, after
  it one.\<close>

theorem wellformed_input_gives_wellformed_postfix_witness:
  "wellformed (trim ''p&q|~(r>s)<t|(~q^~s)'')
   \<and> generateRPN ''p&q|~(r>s)<t|(~q^~s)'' = Inr worked_example
   \<and> rpn_wellformed (data worked_example)
   \<and> data worked_example ! 15 = ''<''
   \<and> (2::nat) \<le> length (snd (evaluate [1, 0, 1, 0, 1] (take 15 (convert worked_example)) ([], [])))
   \<and> length (snd (evaluate [1, 0, 1, 0, 1] (convert worked_example) ([], []))) = 1
   \<and> length (snd (simulate worked_example (data worked_example) ([], []))) = 1"
proof -
  have wf: "wellformed (trim ''p&q|~(r>s)<t|(~q^~s)'')"
    by code_simp
  have gen: "generateRPN ''p&q|~(r>s)<t|(~q^~s)'' = Inr worked_example"
    by code_simp
  note t = wellformed_input_gives_wellformed_postfix[OF wf gen]
  have tok: "data worked_example ! 15 = ''<''" "15 < length (data worked_example)"
      "in_operators (data worked_example ! 15)"
    by (simp_all add: worked_example_def in_operators_iff)
  have "(if data worked_example ! 15 = ''~'' then 1 else 2)
      \<le> length (snd (evaluate [1, 0, 1, 0, 1] (take 15 (convert worked_example)) ([], [])))"
    using t tok(2,3) by blast
  then have two: "(2::nat) \<le> length (snd (evaluate [1, 0, 1, 0, 1] (take 15 (convert worked_example)) ([], [])))"
    by (simp add: tok(1))
  show ?thesis
    using wf gen t tok(1) two by blast
qed

subsection \<open>When compilation raises\<close>

lemma generateRPN_raises: "generateRPN s = Inl TypeError \<longleftrightarrow> raises initial_state (trim s)"
proof -
  have "e = TypeError" for e :: js_error
    by (cases e)
  then show ?thesis
    by (auto simp: generateRPN_def raises_def split: sum.splits option.splits)
qed

lemma step_outcome:
  assumes inv: "scan_invariant pre st"
  shows "step st [c] =
     (if c = CHR ''('' then Inr (st\<lparr>parenLevel := parenLevel st + 1\<rparr>)
      else if c = CHR '')'' then
        (case pendingOperations st (parenLevel st) of
           None \<Rightarrow> Inl TypeError
         | Some stack \<Rightarrow>
             Inr (st\<lparr>rpn := (rpn st)\<lparr>data := data (rpn st) @ stack\<rparr>,
                    pendingOperations := (pendingOperations st)(parenLevel st \<mapsto> []),
                    parenLevel := parenLevel st - 1\<rparr>))
      else if in_operators [c] then
        (case pendingOperations st (parenLevel st) of
           None \<Rightarrow> Inr (st\<lparr>pendingOperations := (pendingOperations st)(parenLevel st \<mapsto> [[c]])\<rparr>)
         | Some stack \<Rightarrow>
             Inr (st\<lparr>rpn := (rpn st)\<lparr>data := data (rpn st) @ takeWhile (binds_tighter [c]) stack\<rparr>,
                    pendingOperations :=
                      (pendingOperations st)
                        (parenLevel st \<mapsto> [c] # dropWhile (binds_tighter [c]) stack)\<rparr>))
      else Inr (st\<lparr>rpn := handle_variable (rpn st) [c]\<rparr>))"
proof -
  have ops: "\<And>stack. pendingOperations st (parenLevel st) = Some stack \<Longrightarrow> \<forall>op\<in>set stack. in_operators op"
    using inv by (simp add: scan_invariant_def stacks_hold_operators_def)
  consider (lparen) "c = CHR ''(''" | (rparen) "c = CHR '')''" | (operator) "in_operators [c]"
    | (variable) "is_variable [c]"
    by (auto simp: is_variable_def)
  then show ?thesis
  proof cases
    case lparen
    then show ?thesis by (simp add: step_def)
  next
    case rparen
    then show ?thesis by (simp add: step_def drain_append split: option.splits)
  next
    case operator
    then have np: "c \<noteq> CHR ''(''" "c \<noteq> CHR '')''"
      by (auto simp: in_operators_iff)
    show ?thesis
    proof (cases "pendingOperations st (parenLevel st)")
      case None
      then show ?thesis
        using step_operator_on_empty[OF operator, of st] operator np by simp
    next
      case (Some stack)
      show ?thesis
      proof (cases "stack = []")
        case True
        then show ?thesis
          using step_operator_on_empty[OF operator, of st] operator np Some by simp
      next
        case False
        then show ?thesis
          using step_operator_on_stack[OF operator Some False ops[OF Some]] operator np Some by simp
      qed
    qed
  next
    case variable
    then show ?thesis by (simp add: step_def is_variable_def)
  qed
qed

lemma raises_stack_missing:
  "scan_invariant pre st \<Longrightarrow> dom (pendingOperations st) = set created \<Longrightarrow>
   raises st s \<longleftrightarrow> stack_missing (parenLevel st) created s"
proof (induction s arbitrary: pre st created)
  case Nil
  then show ?case
    by (auto simp: raises_def)
next
  case (Cons c s)
  note out = step_outcome[OF Cons.prems(1), of c]
  have next_inv: "scan_invariant (pre @ [c]) st1" if "step st [c] = Inr st1" for st1
    using step_preserves_invariant[OF Cons.prems(1) that] .
  have r: "raises st (c # s) = (case step st [c] of Inl e \<Rightarrow> True | Inr st1 \<Rightarrow> raises st1 s)"
    by (simp add: raises_def split: sum.splits)
  consider (lparen) "c = CHR ''(''" | (rparen) "c = CHR '')''" | (operator) "in_operators [c]"
    | (variable) "is_variable [c]"
    by (auto simp: is_variable_def)
  then show ?case
  proof cases
    case lparen
    let ?st1 = "st\<lparr>parenLevel := parenLevel st + 1\<rparr>"
    have s1: "step st [c] = Inr ?st1"
      using out lparen by simp
    have "raises st (c # s) = raises ?st1 s"
      by (simp add: r s1)
    moreover have "raises ?st1 s \<longleftrightarrow> stack_missing (parenLevel ?st1) created s"
      using Cons.IH[OF next_inv[OF s1]] Cons.prems(2) by simp
    moreover have "stack_missing (parenLevel st) created (c # s)
        = stack_missing (parenLevel st + 1) created s"
      using lparen by simp
    ultimately show ?thesis
      by simp
  next
    case rparen
    have sm: "stack_missing (parenLevel st) created (c # s)
        = (parenLevel st \<notin> set created \<or> stack_missing (parenLevel st - 1) created s)"
      using rparen by simp
    show ?thesis
    proof (cases "pendingOperations st (parenLevel st)")
      case None
      then have "step st [c] = Inl TypeError" "parenLevel st \<notin> set created"
        using out rparen Cons.prems(2) by (auto simp: domIff)
      then show ?thesis
        unfolding r sm by simp
    next
      case (Some stack)
      let ?st1 = "st\<lparr>rpn := (rpn st)\<lparr>data := data (rpn st) @ stack\<rparr>,
                    pendingOperations := (pendingOperations st)(parenLevel st \<mapsto> []),
                    parenLevel := parenLevel st - 1\<rparr>"
      have s1: "step st [c] = Inr ?st1"
        using out rparen Some by simp
      have mem: "parenLevel st \<in> set created"
        using Some Cons.prems(2) by auto
      then have "dom (pendingOperations ?st1) = set created"
        using Cons.prems(2) by auto
      from Cons.IH[OF next_inv[OF s1] this]
      have "raises ?st1 s \<longleftrightarrow> stack_missing (parenLevel st - 1) created s"
        by simp
      moreover have "raises st (c # s) = raises ?st1 s"
        by (simp add: r s1)
      ultimately show ?thesis
        using mem unfolding sm by simp
    qed
  next
    case operator
    then have np: "c \<noteq> CHR ''(''" "c \<noteq> CHR '')''"
      by (auto simp: in_operators_iff)
    obtain st1 where s1: "step st [c] = Inr st1" "parenLevel st1 = parenLevel st"
      "dom (pendingOperations st1) = insert (parenLevel st) (dom (pendingOperations st))"
      using out operator np by (cases "pendingOperations st (parenLevel st)") auto
    have "dom (pendingOperations st1) = set (parenLevel st # created)"
      using s1(3) Cons.prems(2) by simp
    from Cons.IH[OF next_inv[OF s1(1)] this]
    have "raises st1 s \<longleftrightarrow> stack_missing (parenLevel st) (parenLevel st # created) s"
      by (simp add: s1(2))
    moreover have "raises st (c # s) = raises st1 s"
      by (simp add: r s1(1))
    moreover have "stack_missing (parenLevel st) created (c # s)
        = stack_missing (parenLevel st) (parenLevel st # created) s"
      using operator np by simp
    ultimately show ?thesis
      by simp
  next
    case variable
    then have np: "c \<noteq> CHR ''(''" "c \<noteq> CHR '')''" "\<not> in_operators [c]"
      by (auto simp: is_variable_def)
    let ?st1 = "st\<lparr>rpn := handle_variable (rpn st) [c]\<rparr>"
    have s1: "step st [c] = Inr ?st1"
      using out np by simp
    have "raises ?st1 s \<longleftrightarrow> stack_missing (parenLevel ?st1) created s"
      using Cons.IH[OF next_inv[OF s1]] Cons.prems(2) by simp
    moreover have "raises st (c # s) = raises ?st1 s"
      by (simp add: r s1)
    moreover have "stack_missing (parenLevel st) created (c # s)
        = stack_missing (parenLevel st) created s"
      using np by simp
    ultimately show ?thesis
      by simp
  qed
qed

text \<open>Compilation raises exactly when a level is closed, or the text ends, without a stack
  for that level; otherwise it returns. This holds for every input, well-formed or not.\<close>

lemma generateRPN_raises_iff:
  "generateRPN s = Inl TypeError \<longleftrightarrow> stack_missing 0 [0] (trim s)"
proof -
  have "dom (pendingOperations initial_state) = set [0]"
    by (auto simp: initial_state_def dom_def)
  from raises_stack_missing[OF scan_invariant_initial this]
  show ?thesis
    by (simp add: generateRPN_raises initial_state_def)
qed

lemma generateRPN_returns_iff:
  "(\<exists>r. generateRPN s = Inr r) \<longleftrightarrow> \<not> stack_missing 0 [0] (trim s)"
proof -
  have "e = TypeError" for e :: js_error
    by (cases e)
  then have "(\<exists>r. generateRPN s = Inr r) \<longleftrightarrow> generateRPN s \<noteq> Inl TypeError"
    by (cases "generateRPN s") auto
  then show ?thesis
    by (simp add: generateRPN_raises_iff)
qed

lemma group_without_operator_is_missing_stack:
  "stack_missing 0 [0] ''(p)'' \<and> \<not> stack_missing 0 [0] ''(a&b)|(c)''"
  by code_simp

end
